theory Spec2Isabelle
  imports Main
begin

section \<open>The partition-and-collect search kernel of search.c\<close>

text \<open>
  The program reads a file into \<open>file_buffer\<close> and searches it for the pattern of the
  command line; the buffer is cut into one segment per MPI rank, each rank scans its
  segment with \<open>find_string\<close>, and the root gathers and prints the offsets. The
  \<^emph>\<open>corpus\<close> of a run is the content of the file. The program gives \<open>file_size - 1\<close>,
  not \<open>file_size\<close>, to its size check and to \<open>distribute_file\<close>, so the ranks share out
  the corpus without its final byte.

  Bytes are \<^typ>\<open>char\<close>. The sizes and offsets of the program are \<^typ>\<open>int\<close>, with the
  conversions of C written out: \<open>to_int\<close> where a value is stored in an \<open>int\<close>,
  \<open>mod 2 ^ 64\<close> where it is computed in \<open>size_t\<close>. Loop counters, the match counts and
  the sums of the gather only grow from 0 and are \<^typ>\<open>nat\<close>; they stay below \<open>2^31\<close>
  in the runs that the statements about results are made for. The rank count \<open>p\<close> comes from \<open>MPI_Comm_size\<close> and is at
  least 1.

  An access outside an array is undefined in C. The model makes each one a result of its
  own: a run is \<open>Inl err\<close> when it aborts or leaves one of its buffers, and \<open>Inr out\<close>
  when it prints the offsets \<open>out\<close>.
\<close>

datatype error =
    SizeError               \<comment> \<open>"pattern is larger than file"\<close>
  | FileAllocationError     \<comment> \<open>"Memory allocation failed for file buffer"\<close>
  | AllocationError         \<comment> \<open>"Memory allocation failed for local buffer"\<close>
  | PatternAllocationError  \<comment> \<open>"Failed to allocate memory for the pattern."\<close>
  | PatternOverflow         \<comment> \<open>\<open>MPI_Bcast\<close> writes outside \<open>pattern\<close>\<close>
  | ScatterOutOfBounds      \<comment> \<open>\<open>MPI_Scatterv\<close> reads outside \<open>file_buffer\<close>\<close>
  | ReadOutOfBounds         \<comment> \<open>\<open>find_string\<close> reads outside \<open>file\<close> or \<open>pattern\<close>\<close>
  | FoundOverflow           \<comment> \<open>\<open>find_string\<close> writes outside \<open>found\<close>\<close>
  | NullReceiveBuffer       \<comment> \<open>\<open>MPI_Gatherv\<close> writes through a null \<open>all_indexes\<close>\<close>

subsection \<open>C integers\<close>

text \<open>\<open>/\<close> and \<open>%\<close> of C truncate towards zero.\<close>

definition c_div :: "int \<Rightarrow> int \<Rightarrow> int" where
  "c_div a b = sgn a * sgn b * (\<bar>a\<bar> div \<bar>b\<bar>)"

definition c_mod :: "int \<Rightarrow> int \<Rightarrow> int" where
  "c_mod a b = a - b * c_div a b"

text \<open>
  A value stored in an \<open>int\<close> is reduced modulo \<open>2^32\<close> into the range from \<open>-2^31\<close> to
  \<open>2^31 - 1\<close>. This is the conversion from a wider type; the model makes the same
  reduction for the additions made in \<open>int\<close>, whose overflow C leaves undefined.
\<close>

definition to_int :: "int \<Rightarrow> int" where
  "to_int x = (x + 2 ^ 31) mod 2 ^ 32 - 2 ^ 31"

subsection \<open>distribute\_file\<close>

text \<open>
  \<open>n\<close> and \<open>r\<close> are \<open>int\<close>, initialised from a quotient and a remainder of
  \<open>intmax_t\<close>. One iteration of the loop writes \<open>distribute[i]\<close>: the base share \<open>n\<close>,
  one more while \<open>r > 0\<close>, and \<open>pattern_size - 1\<close> more for every rank but the last. That
  last sum is made in \<open>size_t\<close> and stored in an \<open>int\<close>; as \<open>2^32\<close> divides \<open>2^64\<close>,
  reducing the integer sum with \<open>to_int\<close> gives the same value.
\<close>

function distribute_loop :: "int \<Rightarrow> int \<Rightarrow> nat \<Rightarrow> nat \<Rightarrow> int \<Rightarrow> int list \<Rightarrow> int list" where
  "distribute_loop n pattern_size p i r distribute =
     (if i < p then
        (let d0 = n;
             d1 = (if r > 0 then to_int (d0 + 1) else d0);
             r' = (if r > 0 then to_int (r - 1) else r);
             d2 = (if int i < int p - 1 then to_int (d1 + (pattern_size - 1)) else d1)
         in distribute_loop n pattern_size p (Suc i) r' (distribute[i := d2]))
      else distribute)"
  by pat_completeness auto
termination
  by (relation "measure (\<lambda>(n, pattern_size, p, i, r, distribute). p - i)") auto

declare distribute_loop.simps [simp del]

definition distribute_file :: "int \<Rightarrow> int \<Rightarrow> nat \<Rightarrow> int list \<Rightarrow> int list" where
  "distribute_file file_size pattern_size p distribute =
     distribute_loop (to_int (c_div file_size (int p))) pattern_size p 0
       (to_int (c_mod file_size (int p))) distribute"

subsection \<open>displacment\<close>

text \<open>
  \<open>displs[i - 1] + distribute[i - 1] - (pattern_size - 1)\<close> is computed in \<open>size_t\<close> and
  stored in the \<open>int\<close> \<open>displs[i]\<close>.
\<close>

function displs_loop :: "int list \<Rightarrow> int \<Rightarrow> nat \<Rightarrow> nat \<Rightarrow> int list \<Rightarrow> int list" where
  "displs_loop distribute pattern_size p i displs =
     (if i < p then
        displs_loop distribute pattern_size p (Suc i)
          (displs[i := to_int (displs ! (i - 1) + distribute ! (i - 1) - (pattern_size - 1))])
      else displs)"
  by pat_completeness auto
termination
  by (relation "measure (\<lambda>(distribute, pattern_size, p, i, displs). p - i)") auto

declare displs_loop.simps [simp del]

definition displacment :: "int list \<Rightarrow> int list \<Rightarrow> int \<Rightarrow> nat \<Rightarrow> int list" where
  "displacment displs distribute pattern_size p =
     displs_loop distribute pattern_size p 1 (displs[0 := 0])"

subsection \<open>find\_string\<close>

text \<open>
  The inner loop compares \<open>file[i + j]\<close> with \<open>pattern[j]\<close> and stops at the first
  difference; it returns the final \<open>j\<close>. The last component counts the byte comparisons
  made so far; it is not a variable of the program.
\<close>

function compare_loop :: "char list \<Rightarrow> char list \<Rightarrow> int \<Rightarrow> nat \<Rightarrow> nat \<Rightarrow> nat \<Rightarrow> error + (nat \<times> nat)" where
  "compare_loop file pattern pattern_size i j ncmp =
     (if int j < pattern_size then
        (if i + j < length file \<and> j < length pattern then
           (if file ! (i + j) \<noteq> pattern ! j then Inr (j, Suc ncmp)
            else compare_loop file pattern pattern_size i (Suc j) (Suc ncmp))
         else Inl ReadOutOfBounds)
      else Inr (j, ncmp))"
  by pat_completeness auto
termination
  by (relation "measure (\<lambda>(file, pattern, pattern_size, i, j, ncmp). nat (pattern_size - int j))") auto

declare compare_loop.simps [simp del]

text \<open>
  The outer loop runs \<open>i\<close> from 0 while \<open>i <= file_size - pattern_size\<close>; a full match
  stores the \<open>int\<close> \<open>i + displacment\<close> at \<open>found[count]\<close> and increments \<open>count\<close>. The
  array \<open>found\<close> is the list of its entries, so its length is its capacity.
\<close>

function scan_loop :: "char list \<Rightarrow> char list \<Rightarrow> int \<Rightarrow> int \<Rightarrow> int \<Rightarrow> nat
    \<Rightarrow> int list \<times> nat \<times> nat \<Rightarrow> error + (int list \<times> nat \<times> nat)" where
  "scan_loop file pattern file_size pattern_size displacement i (found, count, ncmp) =
     (if int i \<le> file_size - pattern_size then
        (case compare_loop file pattern pattern_size i 0 ncmp of
           Inl err \<Rightarrow> Inl err
         | Inr (j, ncmp') \<Rightarrow>
             if int j = pattern_size then
               (if count < length found then
                  scan_loop file pattern file_size pattern_size displacement (Suc i)
                    (found[count := to_int (int i + displacement)], Suc count, ncmp')
                else Inl FoundOverflow)
             else scan_loop file pattern file_size pattern_size displacement (Suc i)
                    (found, count, ncmp'))
      else Inr (found, count, ncmp))"
  by pat_completeness auto
termination
  by (relation "measure (\<lambda>(file, pattern, file_size, pattern_size, displacement, i, st).
        nat (file_size - pattern_size + 1 - int i))") auto

declare scan_loop.simps [simp del]

definition find_string :: "char list \<Rightarrow> char list \<Rightarrow> int list \<Rightarrow> int \<Rightarrow> int \<Rightarrow> nat \<Rightarrow> int
    \<Rightarrow> nat \<Rightarrow> error + (int list \<times> nat \<times> nat)" where
  "find_string file pattern found file_size pattern_size count displacement ncmp =
     scan_loop file pattern file_size pattern_size displacement 0 (found, count, ncmp)"

subsection \<open>The aggregation in main and print\_index\<close>

text \<open>The loop of \<open>main\<close> that fills \<open>displs_for_gather\<close> on the root.\<close>

function gather_displs_loop :: "nat list \<Rightarrow> nat \<Rightarrow> nat \<Rightarrow> nat list \<Rightarrow> nat list" where
  "gather_displs_loop recv_counts p i displs_for_gather =
     (if i < p then
        gather_displs_loop recv_counts p (Suc i)
          (displs_for_gather[i := displs_for_gather ! (i - 1) + recv_counts ! (i - 1)])
      else displs_for_gather)"
  by pat_completeness auto
termination
  by (relation "measure (\<lambda>(recv_counts, p, i, displs_for_gather). p - i)") auto

declare gather_displs_loop.simps [simp del]

text \<open>
  \<open>MPI_Gatherv\<close> on the root: the \<open>recv_counts[i]\<close> first entries of rank \<open>i\<close>'s send
  buffer are stored from position \<open>displs_for_gather[i]\<close> of the receive buffer.
\<close>

definition store_at :: "int list \<Rightarrow> nat \<Rightarrow> int list \<Rightarrow> int list" where
  "store_at buf pos xs = take pos buf @ xs @ drop (pos + length xs) buf"

fun gatherv :: "int list list \<Rightarrow> nat list \<Rightarrow> nat list \<Rightarrow> nat \<Rightarrow> int list \<Rightarrow> int list" where
  "gatherv [] recv_counts displs_for_gather i all_indexes = all_indexes"
| "gatherv (found # rest) recv_counts displs_for_gather i all_indexes =
     gatherv rest recv_counts displs_for_gather (Suc i)
       (store_at all_indexes (displs_for_gather ! i) (take (recv_counts ! i) found))"

function print_row :: "int list \<Rightarrow> nat \<Rightarrow> nat \<Rightarrow> nat \<Rightarrow> int list \<Rightarrow> int list" where
  "print_row arr offset n j out =
     (if j < n then print_row arr offset n (Suc j) (out @ [arr ! (offset + j)]) else out)"
  by pat_completeness auto
termination
  by (relation "measure (\<lambda>(arr, offset, n, j, out). n - j)") auto

declare print_row.simps [simp del]

function print_loop :: "int list \<Rightarrow> nat list \<Rightarrow> nat \<Rightarrow> nat \<Rightarrow> nat \<Rightarrow> int list \<Rightarrow> int list" where
  "print_loop arr recv_counts p i offset out =
     (if i < p then
        print_loop arr recv_counts p (Suc i) (offset + recv_counts ! i)
          (print_row arr offset (recv_counts ! i) 0 out)
      else out)"
  by pat_completeness auto
termination
  by (relation "measure (\<lambda>(arr, recv_counts, p, i, offset, out). p - i)") auto

declare print_loop.simps [simp del]

definition print_index :: "int list \<Rightarrow> nat list \<Rightarrow> nat \<Rightarrow> int list" where
  "print_index arr recv_counts p = print_loop arr recv_counts p 0 0 []"

subsection \<open>What a run finds in memory\<close>

text \<open>
  \<open>main\<close> reads three variables that it has not written: the arrays \<open>distribute\<close> and
  \<open>displs\<close> are declared without initialiser, and \<open>pattern_size\<close> is set on the root only
  but passed to \<open>malloc\<close> and \<open>strncpy\<close> on every rank before the broadcast. What they hold
  then, which requests \<open>malloc\<close> refuses and how large an array the stack holds is not
  decided by the program; a run takes it as a parameter. \<open>uninit_pattern_size e rank\<close> is
  the 64-bit value that \<open>pattern_size\<close> holds on \<open>rank\<close> at its declaration, and
  \<open>stack_entries e\<close> the largest number of entries with which \<open>found\<close> can be declared.
\<close>

record env =
  uninit_distribute :: "nat \<Rightarrow> int"
  uninit_displs :: "nat \<Rightarrow> int"
  uninit_pattern_size :: "nat \<Rightarrow> int"
  malloc_fails :: "int \<Rightarrow> bool"
  stack_entries :: int

text \<open>
  \<open>malloc\<close> returns null for a request that the platform refuses. A negative \<open>int\<close>
  becomes a \<open>size_t\<close> of at least \<open>2^64 - 2^31\<close>, and no request of \<open>2^63\<close> bytes or more
  is granted.
\<close>

definition malloc_null :: "env \<Rightarrow> int \<Rightarrow> bool" where
  "malloc_null e n \<longleftrightarrow> n < 0 \<or> 2 ^ 63 \<le> n \<or> malloc_fails e n"

text \<open>
  A platform where the uninitialised \<open>pattern_size\<close> of every rank holds \<open>v\<close>, the
  uninitialised array entries hold 7 and 9, \<open>malloc\<close> grants every request below
  \<open>2^40\<close> bytes, and the stack holds the \<open>2^21\<close> \<open>int\<close>s of 8 MiB.
\<close>

definition plain_env :: "int \<Rightarrow> env" where
  "plain_env v = \<lparr>uninit_distribute = (\<lambda>i. 7), uninit_displs = (\<lambda>i. 9),
                  uninit_pattern_size = (\<lambda>rank. v), malloc_fails = (\<lambda>n. 2 ^ 40 \<le> n),
                  stack_entries = 2 ^ 21\<rparr>"

subsection \<open>main\<close>

text \<open>
  The test \<open>file_size - 1 < pattern_size\<close> compares an \<open>intmax_t\<close> with a \<open>size_t\<close>:
  the left side is converted to the unsigned 64-bit type before the comparison.
\<close>

definition size_check :: "int \<Rightarrow> int \<Rightarrow> bool" where
  "size_check file_size pattern_size \<longleftrightarrow> (file_size - 1) mod 2 ^ 64 < pattern_size"

text \<open>
  The tables that the root computes and broadcasts. Before the calls the arrays hold what
  was in memory.
\<close>

definition root_distribute :: "env \<Rightarrow> char list \<Rightarrow> char list \<Rightarrow> nat \<Rightarrow> int list" where
  "root_distribute e file_buffer pattern p =
     distribute_file (int (length file_buffer) - 1) (int (length pattern)) p
       (map (uninit_distribute e) [0..<p])"

definition root_displs :: "env \<Rightarrow> char list \<Rightarrow> char list \<Rightarrow> nat \<Rightarrow> int list" where
  "root_displs e file_buffer pattern p =
     displacment (map (uninit_displs e) [0..<p]) (root_distribute e file_buffer pattern p)
       (int (length pattern)) p"

text \<open>
  \<open>pattern_size\<close> on a rank. Up to the broadcast it is \<open>strlen(argv[1])\<close> on the root and
  what memory held elsewhere; \<open>pattern\<close> is allocated with that many bytes. The broadcast
  sends one \<open>MPI_INT\<close>, so it replaces the 4 low-order bytes (the first 4 in memory on a
  little-endian machine) and leaves the 4 high-order bytes as they were.
\<close>

definition pattern_size_before :: "env \<Rightarrow> char list \<Rightarrow> nat \<Rightarrow> int" where
  "pattern_size_before e pattern rank =
     (if rank = 0 then int (length pattern) else uninit_pattern_size e rank mod 2 ^ 64)"

definition pattern_size_after :: "env \<Rightarrow> char list \<Rightarrow> nat \<Rightarrow> int" where
  "pattern_size_after e pattern rank =
     (pattern_size_before e pattern rank div 2 ^ 32) * 2 ^ 32 + int (length pattern) mod 2 ^ 32"

text \<open>
  The bound in the declaration of \<open>found\<close>, \<open>distribute[id] - pattern_size\<close>, is computed
  in \<open>size_t\<close>: when the difference is negative the bound is close to \<open>2^64\<close>.
\<close>

definition found_bound :: "env \<Rightarrow> char list \<Rightarrow> int list \<Rightarrow> nat \<Rightarrow> int" where
  "found_bound e pattern distribute rank =
     (distribute ! rank - pattern_size_after e pattern rank) mod 2 ^ 64"

text \<open>
  What one rank does between the scatter and the barrier. Its segment is the
  \<open>distribute[id]\<close> bytes of \<open>file_buffer\<close> from \<open>displs[id]\<close>. \<open>find_string\<close> takes
  \<open>pattern_size\<close> as an \<open>int\<close>. The rank sends the \<open>count\<close> first entries of \<open>found\<close>.

  A declaration of \<open>found\<close> with bound 0, or with a bound that the stack does not
  hold, is undefined in C. The model lets the run go on with an array of no entries, so
  that every store to it is a \<open>FoundOverflow\<close>; the statements below about the offsets
  of a run are made for runs where every bound is positive and at most \<open>stack_entries\<close>
  (\<open>found_bounds_valid\<close>).
\<close>

definition local_search :: "env \<Rightarrow> char list \<Rightarrow> char list \<Rightarrow> int list \<Rightarrow> int list \<Rightarrow> nat
    \<Rightarrow> error + int list" where
  "local_search e file_buffer pattern distribute displs rank =
     (let pattern_size = pattern_size_after e pattern rank;
          local_count = distribute ! rank;
          local_buffer = take (nat local_count) (drop (nat (displs ! rank)) file_buffer);
          bound = found_bound e pattern distribute rank;
          found = replicate (nat (if bound \<le> stack_entries e then bound else 0)) 0;
          displacement = displs ! rank
      in case find_string local_buffer pattern found local_count (to_int pattern_size) 0
                displacement 0 of
           Inl err \<Rightarrow> Inl err
         | Inr (found', count, ncmp) \<Rightarrow> Inr (take count found'))"

fun collect :: "(error + 'a) list \<Rightarrow> error + 'a list" where
  "collect [] = Inr []"
| "collect (Inl err # rs) = Inl err"
| "collect (Inr x # rs) = (case collect rs of Inl err \<Rightarrow> Inl err | Inr xs \<Rightarrow> Inr (x # xs))"

definition aggregate :: "int list list \<Rightarrow> nat \<Rightarrow> int list" where
  "aggregate sent p =
     (let recv_counts = map length sent;
          displs_for_gather = gather_displs_loop recv_counts p 1 ((replicate p 0)[0 := 0]);
          total_indexes = sum_list recv_counts;
          all_indexes = gatherv sent recv_counts displs_for_gather 0 (replicate total_indexes 0)
      in print_index all_indexes recv_counts p)"

text \<open>
  The run after the size check. The steps are those of \<open>main\<close> in program order, and
  within a step the ranks in rank order; the first fault is the fault of the run. The
  root allocates \<open>file_buffer\<close>; every rank allocates \<open>local_buffer\<close> with
  \<open>distribute[id]\<close> bytes and \<open>pattern\<close> with the \<open>pattern_size\<close> bytes it has at that
  point; the broadcast of the pattern writes \<open>(int) pattern_size\<close> bytes, the same number
  on every rank, into that allocation; the scatter reads the ranges of the tables from
  \<open>file_buffer\<close>; the ranks search; the root allocates \<open>all_indexes\<close>, without a test of
  the result, and gathers into it.
\<close>

definition partition_and_collect :: "env \<Rightarrow> char list \<Rightarrow> char list \<Rightarrow> nat \<Rightarrow> error + int list" where
  "partition_and_collect e file_buffer pattern p =
     (let file_size = int (length file_buffer);
          distribute = root_distribute e file_buffer pattern p;
          displs = root_displs e file_buffer pattern p
      in if malloc_null e file_size then Inl FileAllocationError
         else if list_ex (\<lambda>rank. malloc_null e (distribute ! rank)) [0..<p]
           then Inl AllocationError
         else if list_ex (\<lambda>rank. malloc_null e (pattern_size_before e pattern rank)) [0..<p]
           then Inl PatternAllocationError
         else if list_ex (\<lambda>rank. pattern_size_before e pattern rank
                                   < to_int (pattern_size_after e pattern rank)) [0..<p]
           then Inl PatternOverflow
         else if list_ex (\<lambda>rank. displs ! rank < 0 \<or> file_size < displs ! rank + distribute ! rank) [0..<p]
           then Inl ScatterOutOfBounds
         else (case collect (map (local_search e file_buffer pattern distribute displs) [0..<p]) of
                 Inl err \<Rightarrow> Inl err
               | Inr sent \<Rightarrow>
                   if 0 < sum_list (map length sent)
                      \<and> malloc_null e (4 * int (sum_list (map length sent)))
                     then Inl NullReceiveBuffer
                   else Inr (aggregate sent p)))"

definition main :: "env \<Rightarrow> char list \<Rightarrow> char list \<Rightarrow> nat \<Rightarrow> error + int list" where
  "main e file_buffer pattern p =
     (if size_check (int (length file_buffer)) (int (length pattern)) then Inl SizeError
      else partition_and_collect e file_buffer pattern p)"

subsection \<open>Notions used to state the properties\<close>

text \<open>The pattern occurs in \<open>xs\<close> at position \<open>i\<close>.\<close>

definition occurs_at :: "char list \<Rightarrow> char list \<Rightarrow> nat \<Rightarrow> bool" where
  "occurs_at pattern xs i \<longleftrightarrow> take (length pattern) (drop i xs) = pattern"

text \<open>
  Where the share of rank \<open>k\<close> starts when \<open>L\<close> bytes are shared among \<open>p\<close> ranks, and
  how many positions rank \<open>k\<close> scans for a pattern of \<open>m\<close> bytes.
\<close>

definition territory_start :: "nat \<Rightarrow> nat \<Rightarrow> nat \<Rightarrow> nat" where
  "territory_start L p k = k * (L div p) + min k (L mod p)"

definition scanned :: "nat \<Rightarrow> nat \<Rightarrow> nat \<Rightarrow> nat \<Rightarrow> nat" where
  "scanned L m p k =
     nat (int (L div p) + (if k < L mod p then 1 else 0) + (if k < p - 1 then int m - 1 else 0)
          - int m + 1)"

text \<open>
  Every rank of the run declares \<open>found\<close> with a bound that is positive and that the
  stack holds.
\<close>

definition found_bounds_valid :: "env \<Rightarrow> char list \<Rightarrow> char list \<Rightarrow> nat \<Rightarrow> bool" where
  "found_bounds_valid e file_buffer pattern p \<longleftrightarrow>
     list_all (\<lambda>rank. 0 < found_bound e pattern (root_distribute e file_buffer pattern p) rank
                    \<and> found_bound e pattern (root_distribute e file_buffer pattern p) rank
                        \<le> stack_entries e)
       [0..<p]"

section \<open>Values in the range of int\<close>

lemma to_int_id: "- (2 ^ 31) \<le> x \<Longrightarrow> x < 2 ^ 31 \<Longrightarrow> to_int x = x"
proof -
  assume a: "- (2 ^ 31) \<le> x" "x < 2 ^ 31"
  have "(x + 2 ^ 31) mod 2 ^ 32 = x + 2 ^ 31"
    using a by (intro mod_pos_pos_trivial) simp_all
  then show ?thesis by (simp add: to_int_def)
qed

lemma to_int_nonneg: "0 \<le> x \<Longrightarrow> x < 2 ^ 31 \<Longrightarrow> to_int x = x"
  by (rule to_int_id) simp_all

lemma to_int_shift: "to_int (k * 2 ^ 32 + x) = to_int x"
proof -
  have "k * 2 ^ 32 + x + 2 ^ 31 = x + 2 ^ 31 + k * 2 ^ 32" by simp
  then have "(k * 2 ^ 32 + x + 2 ^ 31) mod 2 ^ 32 = (x + 2 ^ 31 + k * 2 ^ 32) mod 2 ^ 32"
    by (rule arg_cong)
  also have "\<dots> = (x + 2 ^ 31) mod 2 ^ 32"
    by (rule mod_mult_self1)
  finally show ?thesis by (simp only: to_int_def)
qed

lemma to_int_pattern_size_after:
  assumes "int (length P) < 2 ^ 31"
  shows "to_int (pattern_size_after e P rank) = int (length P)"
proof -
  have "int (length P) mod 2 ^ 32 = int (length P)"
    using assms by (intro mod_pos_pos_trivial) simp_all
  then have "pattern_size_after e P rank
      = (pattern_size_before e P rank div 2 ^ 32) * 2 ^ 32 + int (length P)"
    by (simp only: pattern_size_after_def)
  then have "to_int (pattern_size_after e P rank) = to_int (int (length P))"
    by (simp only: to_int_shift)
  also have "\<dots> = int (length P)" using assms by (intro to_int_nonneg) simp_all
  finally show ?thesis .
qed

section \<open>The partition tables\<close>

lemma c_div_nat: "0 < p \<Longrightarrow> c_div (int L) (int p) = int (L div p)"
  by (cases "L = 0") (simp_all add: c_div_def zdiv_int)

lemma c_mod_nat: "0 < p \<Longrightarrow> c_mod (int L) (int p) = int (L mod p)"
proof -
  assume "0 < p"
  have "int p * int (L div p) + int (L mod p) = int L"
    by (simp flip: of_nat_mult of_nat_add)
  then show ?thesis using \<open>0 < p\<close> by (simp add: c_mod_def c_div_nat)
qed

lemma territory_start_mono: "i \<le> j \<Longrightarrow> territory_start L p i \<le> territory_start L p j"
  unfolding territory_start_def by (intro add_mono mult_le_mono1) (simp_all add: min_le_iff_disj)

lemma territory_start_Suc:
  "territory_start L p (Suc k) = territory_start L p k + L div p + (if k < L mod p then 1 else 0)"
  by (simp add: territory_start_def min_def)

lemma territory_start_last: "0 < p \<Longrightarrow> territory_start L p (p - 1) + L div p = L"
proof -
  assume p: "0 < p"
  then have "L mod p < p" by simp
  then have "min (p - 1) (L mod p) = L mod p" by simp
  moreover have "(p - 1) * (L div p) + L div p = p * (L div p)"
    using p by (cases p) simp_all
  ultimately have "territory_start L p (p - 1) + L div p = p * (L div p) + L mod p"
    unfolding territory_start_def by arith
  then show ?thesis by simp
qed

lemma territory_start_le: "0 < p \<Longrightarrow> k < p \<Longrightarrow> territory_start L p k \<le> L"
proof -
  assume p: "0 < p" and k: "k < p"
  then have "k \<le> p - 1" by simp
  then have "territory_start L p k \<le> territory_start L p (p - 1)" by (rule territory_start_mono)
  also have "\<dots> \<le> L" using territory_start_last [OF p, of L] by simp
  finally show ?thesis .
qed

lemma length_distribute_loop: "length (distribute_loop n ps p i r d) = length d"
proof (induction n ps p i r d rule: distribute_loop.induct)
  case (1 n ps p i r d)
  show ?case
  proof (cases "i < p")
    case True
    then show ?thesis
      using 1 [OF True refl refl refl refl]
      by (subst distribute_loop.simps) (simp add: Let_def)
  next
    case False
    then show ?thesis by (subst distribute_loop.simps) simp
  qed
qed

text \<open>
  While the base share, the remainder and the overlap are within the range of \<open>int\<close>, no
  store of the loop changes a value.
\<close>

lemma distribute_loop_nth:
  assumes "length d = p" and "k < p" and "0 \<le> n" and "0 \<le> r" and "r < 2 ^ 31"
    and "1 \<le> ps" and "n + ps < 2 ^ 31"
  shows "distribute_loop n ps p i r d ! k =
     (if k < i then d ! k
      else n + (if int (k - i) < r then 1 else 0) + (if int k < int p - 1 then ps - 1 else 0))"
  using assms
proof (induction n ps p i r d rule: distribute_loop.induct)
  case (1 n ps p i r d)
  show ?case
  proof (cases "i < p")
    case True
    have t1: "to_int (n + 1) = n + 1" using 1(4,7,8) by (intro to_int_nonneg) simp_all
    have t2: "to_int (r - 1) = r - 1" if "0 < r" using that 1(6) by (intro to_int_nonneg) simp_all
    have t3: "to_int (n + 1 + (ps - 1)) = n + 1 + (ps - 1)"
      using 1(4,7,8) by (intro to_int_nonneg) simp_all
    have t4: "to_int (n + (ps - 1)) = n + (ps - 1)"
      using 1(4,7,8) by (intro to_int_nonneg) simp_all
    define r' where "r' = (if 0 < r then to_int (r - 1) else r)"
    have r': "r' = (if 0 < r then r - 1 else r)" unfolding r'_def using t2 by simp
    have rb: "0 \<le> r'" "r' < 2 ^ 31" using 1(5,6) unfolding r' by simp_all
    define d2 where "d2 = (if int i < int p - 1
        then to_int ((if 0 < r then to_int (n + 1) else n) + (ps - 1))
        else (if 0 < r then to_int (n + 1) else n))"
    have d2: "d2 = n + (if 0 < r then 1 else 0) + (if int i < int p - 1 then ps - 1 else 0)"
      unfolding d2_def using t1 t3 t4 by simp
    have len: "length (d[i := d2]) = p" using 1(2) by simp
    have unf: "distribute_loop n ps p i r d = distribute_loop n ps p (Suc i) r' (d[i := d2])"
      using True by (subst distribute_loop.simps) (simp add: Let_def r'_def d2_def)
    have ih: "distribute_loop n ps p (Suc i) r' (d[i := d2]) ! k =
       (if k < Suc i then d[i := d2] ! k
        else n + (if int (k - Suc i) < r' then 1 else 0) + (if int k < int p - 1 then ps - 1 else 0))"
      using 1(1) [OF True refl refl refl refl, folded r'_def d2_def, OF len 1(3) 1(4) rb 1(7) 1(8)] .
    have val: "distribute_loop n ps p i r d ! k =
       (if k < Suc i then d[i := d2] ! k
        else n + (if int (k - Suc i) < r' then 1 else 0) + (if int k < int p - 1 then ps - 1 else 0))"
      unfolding unf by (rule ih)
    show ?thesis
    proof (cases "k < i")
      case lt: True
      then show ?thesis unfolding val using 1(2) by simp
    next
      case ge: False
      show ?thesis
      proof (cases "k = i")
        case eq: True
        have "d[i := d2] ! i = d2" using 1(2) True by simp
        then show ?thesis unfolding val using eq 1(5) by (simp add: d2)
      next
        case ne: False
        then have gt: "i < k" using ge by simp
        then have "int (k - Suc i) = int (k - i) - 1" by simp
        then have "(int (k - Suc i) < r') = (int (k - i) < r)"
          unfolding r' using gt 1(5) by auto
        then show ?thesis unfolding val using gt by simp
      qed
    qed
  next
    case False
    then show ?thesis using 1(3) by (subst distribute_loop.simps) simp
  qed
qed

lemma length_displs_loop: "length (displs_loop dist ps p i ds) = length ds"
proof (induction dist ps p i ds rule: displs_loop.induct)
  case (1 dist ps p i ds)
  show ?case
  proof (cases "i < p")
    case True
    then show ?thesis using 1 [OF True] by (subst displs_loop.simps) simp
  next
    case False
    then show ?thesis by (subst displs_loop.simps) simp
  qed
qed

lemma displs_loop_below: "k < i \<Longrightarrow> displs_loop dist ps p i ds ! k = ds ! k"
proof (induction dist ps p i ds rule: displs_loop.induct)
  case (1 dist ps p i ds)
  show ?case
  proof (cases "i < p")
    case True
    then show ?thesis using 1(1) [OF True] 1(2) by (subst displs_loop.simps) simp
  next
    case False
    then show ?thesis by (subst displs_loop.simps) simp
  qed
qed

lemma displs_loop_step:
  "1 \<le> i \<Longrightarrow> i \<le> k \<Longrightarrow> k < p \<Longrightarrow> length ds = p \<Longrightarrow>
   displs_loop dist ps p i ds ! k =
     to_int (displs_loop dist ps p i ds ! (k - 1) + dist ! (k - 1) - (ps - 1))"
proof (induction dist ps p i ds rule: displs_loop.induct)
  case (1 dist ps p i ds)
  have ip: "i < p" using 1 by simp
  let ?ds = "ds[i := to_int (ds ! (i - 1) + dist ! (i - 1) - (ps - 1))]"
  have unf: "displs_loop dist ps p i ds = displs_loop dist ps p (Suc i) ?ds"
    using ip by (subst displs_loop.simps) simp
  show ?case
  proof (cases "k = i")
    case True
    have "displs_loop dist ps p (Suc i) ?ds ! i = ?ds ! i"
      by (rule displs_loop_below) simp
    moreover have "displs_loop dist ps p (Suc i) ?ds ! (i - 1) = ?ds ! (i - 1)"
      by (rule displs_loop_below) simp
    ultimately show ?thesis using True 1(2,4,5) unf by simp
  next
    case False
    then have "Suc i \<le> k" using 1(3) by simp
    from 1(1) [OF ip _ this 1(4)] 1(5) show ?thesis unfolding unf by simp
  qed
qed

lemma distribute_file_nth:
  assumes "0 < p" and "i < p" and "length d = p" and "1 \<le> ps" and "int L + ps < 2 ^ 31"
  shows "distribute_file (int L) ps p d ! i =
           int (L div p) + (if i < L mod p then 1 else 0) + (if i < p - 1 then ps - 1 else 0)"
proof -
  have q: "int (L div p) \<le> int L" by simp
  have m: "int (L mod p) \<le> int L" by simp
  have rb: "int (L mod p) < 2 ^ 31" using m assms(4,5) by linarith
  have nb: "int (L div p) + ps < 2 ^ 31" using q assms(5) by linarith
  have qb: "int (L div p) < 2 ^ 31" using nb assms(4) by linarith
  have n: "to_int (int (L div p)) = int (L div p)"
    using qb by (intro to_int_nonneg) simp_all
  have r: "to_int (int (L mod p)) = int (L mod p)"
    using rb by (intro to_int_nonneg) simp_all
  have c: "(int i < int p - 1) = (i < p - 1)" using assms(1) by auto
  have "distribute_file (int L) ps p d ! i
      = distribute_loop (int (L div p)) ps p 0 (int (L mod p)) d ! i"
    using assms(1) by (simp add: distribute_file_def c_div_nat c_mod_nat n r)
  also have "\<dots> = (if i < 0 then d ! i
      else int (L div p) + (if int (i - 0) < int (L mod p) then 1 else 0)
           + (if int i < int p - 1 then ps - 1 else 0))"
    using assms(3) assms(2) _ _ rb assms(4) nb by (rule distribute_loop_nth) simp_all
  finally show ?thesis using c by simp
qed

lemma displacment_0: "0 < p \<Longrightarrow> length ds = p \<Longrightarrow> displacment ds dist ps p ! 0 = 0"
  by (simp add: displacment_def displs_loop_below)

lemma displacment_step:
  "1 \<le> i \<Longrightarrow> i < p \<Longrightarrow> length ds = p \<Longrightarrow>
   displacment ds dist ps p ! i
     = to_int (displacment ds dist ps p ! (i - 1) + dist ! (i - 1) - (ps - 1))"
  unfolding displacment_def by (rule displs_loop_step) simp_all

lemma length_distribute_file: "length (distribute_file fs ps p d) = length d"
  by (simp add: distribute_file_def length_distribute_loop)

lemma length_displacment: "length (displacment ds dist ps p) = length ds"
  by (simp add: displacment_def length_displs_loop)

lemma displacment_closed:
  assumes "0 < p" and "length d = p" and "length ds = p" and "1 \<le> ps" and "int L + ps < 2 ^ 31"
  shows "i < p \<Longrightarrow>
    displacment ds (distribute_file (int L) ps p d) ps p ! i = int (territory_start L p i)"
proof (induction i)
  case 0
  then show ?case using assms by (simp add: displacment_0 territory_start_def)
next
  case (Suc i)
  then have i: "i < p" "i < p - 1" by simp_all
  have le: "int (territory_start L p (Suc i)) \<le> int L"
    using territory_start_le [OF assms(1) Suc.prems] by simp
  have "displacment ds (distribute_file (int L) ps p d) ps p ! Suc i =
        to_int (displacment ds (distribute_file (int L) ps p d) ps p ! i
          + distribute_file (int L) ps p d ! i - (ps - 1))"
    using displacment_step [of "Suc i" p ds] Suc.prems assms by simp
  also have "displacment ds (distribute_file (int L) ps p d) ps p ! i
          + distribute_file (int L) ps p d ! i - (ps - 1)
      = int (territory_start L p i) + (int (L div p) + (if i < L mod p then 1 else 0))"
    using Suc.IH i assms by (simp add: distribute_file_nth)
  also have "\<dots> = int (territory_start L p (Suc i))"
    by (simp add: territory_start_Suc)
  also have "to_int (int (territory_start L p (Suc i))) = int (territory_start L p (Suc i))"
    using le assms(4,5) by (intro to_int_nonneg) simp_all
  finally show ?case .
qed

lemma partition_end:
  assumes "0 < p" and "length d = p" and "length ds = p" and "1 \<le> ps" and "int L + ps < 2 ^ 31"
  shows "displacment ds (distribute_file (int L) ps p d) ps p ! (p - 1)
           + distribute_file (int L) ps p d ! (p - 1) = int L"
proof -
  have "L mod p < p" using assms(1) by simp
  then have r: "\<not> p - 1 < L mod p" by simp
  have "int (territory_start L p (p - 1)) + int (L div p) = int L"
    using territory_start_last [OF assms(1), of L] by (simp only: flip: of_nat_add)
  then show ?thesis
    using assms r by (simp add: displacment_closed distribute_file_nth)
qed

text \<open>
  Claim C6 says that the partitioner computes the sizes and offsets below for every
  corpus length. \<open>distribute_file\<close> keeps the base share in an \<open>int\<close>: for a length of
  \<open>2^32 + 5\<close>, one rank and a pattern of one byte, the claimed size is the whole length
  and the computed size is 5. \<open>displacment\<close> stores the offsets in \<open>int\<close>s: for a length
  of \<open>3 * (2^31 - 1)\<close>, three ranks and a pattern of one byte, the sizes are the claimed
  ones, the third offset is \<open>2^32 - 2\<close> by the claimed recurrence and \<open>-2\<close> in the table.
\<close>

theorem partition_of_long_corpus_truncated:
  "(1::int) \<le> 1 \<and> (1::nat) \<le> 1 \<and> distribute_file 4294967301 1 1 [7] ! 0 = 5
   \<and> (4294967301::int) div 1 + 0 + 0 \<noteq> 5
   \<and> (1::nat) \<le> 3
   \<and> distribute_file 6442450941 1 3 [7, 7, 7] = [2147483647, 2147483647, 2147483647]
   \<and> displacment [9, 9, 9] [2147483647, 2147483647, 2147483647] 1 3 = [0, 2147483647, - 2]
   \<and> (2147483647::int) + 2147483647 - (1 - 1) \<noteq> - 2"
  by code_simp

text \<open>
  Claim C6, amended. For every length \<open>L\<close> handed to the partitioner as the length to share
  out, pattern length \<open>m \<ge> 1\<close> and rank count \<open>p \<ge> 1\<close> with \<open>L + m < 2^31\<close>, and
  whatever the two arrays held before: rank \<open>i\<close> is given \<open>L div p\<close> bytes, one more when
  \<open>i < L mod p\<close>, and \<open>m - 1\<close> overlap bytes unless it is the last rank; the first offset
  is 0 and each later offset is the previous one plus the previous size minus the overlap;
  and the last rank's range ends at \<open>L\<close>, so the ranges without their overlaps tile
  \<open>[0, L)\<close>.
\<close>

theorem partition_table:
  fixes L m p :: nat
  assumes "1 \<le> m" and "1 \<le> p" and "int L + int m < 2 ^ 31"
    and "length d0 = p" and "length ds0 = p"
  shows "let distribute = distribute_file (int L) (int m) p d0;
             displs = displacment ds0 distribute (int m) p
         in (\<forall>i<p. distribute ! i =
               int (L div p) + (if i < L mod p then 1 else 0) + (if i < p - 1 then int m - 1 else 0))
          \<and> displs ! 0 = 0
          \<and> (\<forall>i. 1 \<le> i \<and> i < p \<longrightarrow> displs ! i = displs ! (i - 1) + distribute ! (i - 1) - (int m - 1))
          \<and> displs ! (p - 1) + distribute ! (p - 1) = int L"
proof -
  let ?d = "distribute_file (int L) (int m) p d0"
  let ?ds = "displacment ds0 ?d (int m) p"
  have p: "0 < p" using assms(2) by simp
  have m: "1 \<le> int m" using assms(1) by simp
  have sizes: "\<forall>i<p. ?d ! i =
      int (L div p) + (if i < L mod p then 1 else 0) + (if i < p - 1 then int m - 1 else 0)"
    using p m assms(3,4) by (simp add: distribute_file_nth)
  have closed: "?ds ! i = int (territory_start L p i)" if "i < p" for i
    using p assms(4,5) m assms(3) that by (rule displacment_closed)
  have first: "?ds ! 0 = 0"
    using p assms(5) by (simp add: displacment_0)
  have step: "?ds ! i = ?ds ! (i - 1) + ?d ! (i - 1) - (int m - 1)" if "1 \<le> i \<and> i < p" for i
  proof -
    from that obtain j where j: "i = Suc j" by (cases i) simp_all
    with that have jp: "j < p" "j < p - 1" by simp_all
    have "?ds ! Suc j = int (territory_start L p (Suc j))" using that j by (intro closed) simp
    moreover have "?ds ! j = int (territory_start L p j)" using jp by (intro closed)
    moreover have "?d ! j = int (L div p) + (if j < L mod p then 1 else 0) + (int m - 1)"
      using sizes jp by simp
    ultimately show ?thesis unfolding j by (simp add: territory_start_Suc)
  qed
  have last: "?ds ! (p - 1) + ?d ! (p - 1) = int L"
    using p assms(4,5) m assms(3) by (rule partition_end)
  from sizes first step last show ?thesis
    unfolding Let_def by blast
qed

theorem partition_table_witness:
  "(1::nat) \<le> 2 \<and> (1::nat) \<le> 3 \<and> int 10 + int 2 < 2 ^ 31
   \<and> length [7, 7, 7 :: int] = 3 \<and> length [9, 9, 9 :: int] = 3
   \<and> distribute_file (int 10) (int 2) 3 [7, 7, 7] ! 0 = 5
   \<and> distribute_file (int 10) (int 2) 3 [7, 7, 7] ! 1 = 4
   \<and> distribute_file (int 10) (int 2) 3 [7, 7, 7] ! 2 = 3
   \<and> displacment [9, 9, 9] (distribute_file (int 10) (int 2) 3 [7, 7, 7]) (int 2) 3 ! 0 = 0
   \<and> displacment [9, 9, 9] (distribute_file (int 10) (int 2) 3 [7, 7, 7]) (int 2) 3 ! 1 = 4
   \<and> displacment [9, 9, 9] (distribute_file (int 10) (int 2) 3 [7, 7, 7]) (int 2) 3 ! 2 = 7"
proof -
  let ?d = "distribute_file (int 10) (int 2) 3 [7, 7, 7]"
  let ?ds = "displacment [9, 9, 9] ?d (int 2) 3"
  have t: "(\<forall>i<3. ?d ! i =
               int (10 div 3) + (if i < 10 mod 3 then 1 else 0) + (if i < 3 - 1 then int 2 - 1 else 0))
          \<and> ?ds ! 0 = 0
          \<and> (\<forall>i. 1 \<le> i \<and> i < 3 \<longrightarrow> ?ds ! i = ?ds ! (i - 1) + ?d ! (i - 1) - (int 2 - 1))
          \<and> ?ds ! (3 - 1) + ?d ! (3 - 1) = int 10"
    using partition_table [of 2 3 10 "[7, 7, 7]" "[9, 9, 9]"] by (simp add: Let_def)
  then have d: "?d ! 0 = 5" "?d ! 1 = 4" "?d ! 2 = 3"
    by simp_all
  from t have "?ds ! 1 = ?ds ! (1 - 1) + ?d ! (1 - 1) - (int 2 - 1)"
    and "?ds ! 0 = 0" and "?ds ! (3 - 1) + ?d ! (3 - 1) = int 10" by simp_all
  with d have ds: "?ds ! 0 = 0" "?ds ! 1 = 4" "?ds ! 2 = 7"
    by simp_all
  from d ds show ?thesis by simp
qed

section \<open>The size check\<close>

lemma compare_loop_error:
  "compare_loop fl pat ps i j c = Inl err \<Longrightarrow> err = ReadOutOfBounds"
proof (induction fl pat ps i j c rule: compare_loop.induct)
  case (1 fl pat ps i j c)
  from 1(2) show ?case
    by (subst (asm) compare_loop.simps) (auto split: if_splits intro: 1(1))
qed

lemma scan_loop_error:
  "scan_loop fl pat fs ps d i st = Inl err \<Longrightarrow> err = ReadOutOfBounds \<or> err = FoundOverflow"
proof (induction fl pat fs ps d i st rule: scan_loop.induct)
  case (1 fl pat fs ps d i found count ncmp)
  show ?case
  proof (cases "int i \<le> fs - ps")
    case False
    with 1(3) show ?thesis by (subst (asm) scan_loop.simps) simp
  next
    case True
    show ?thesis
    proof (cases "compare_loop fl pat ps i 0 ncmp")
      case (Inl err')
      with True 1(3) show ?thesis
        by (subst (asm) scan_loop.simps) (auto dest: compare_loop_error)
    next
      case (Inr r)
      obtain j c where r: "r = (j, c)" by (cases r)
      show ?thesis
      proof (cases "int j = ps")
        case j: True
        show ?thesis
        proof (cases "count < length found")
          case c: True
          from 1(3) True Inr r j c
          have "scan_loop fl pat fs ps d (Suc i) (found[count := to_int (int i + d)], Suc count, c)
                  = Inl err"
            by (subst (asm) scan_loop.simps) simp
          then show ?thesis by (rule 1(1) [OF True Inr r [symmetric] j c])
        next
          case c: False
          from 1(3) True Inr r j c show ?thesis
            by (subst (asm) scan_loop.simps) simp
        qed
      next
        case j: False
        from 1(3) True Inr r j
        have "scan_loop fl pat fs ps d (Suc i) (found, count, c) = Inl err"
          by (subst (asm) scan_loop.simps) simp
        then show ?thesis by (rule 1(2) [OF True Inr r [symmetric] j])
      qed
    qed
  qed
qed

lemma collect_error: "collect rs = Inl err \<Longrightarrow> Inl err \<in> set rs"
  by (induction rs rule: collect.induct) (auto split: sum.splits)

lemma local_search_error:
  assumes "local_search e fb pat dist ds k = Inl err"
  shows "err = ReadOutOfBounds \<or> err = FoundOverflow"
proof -
  define r where "r = find_string (take (nat (dist ! k)) (drop (nat (ds ! k)) fb)) pat
      (replicate (nat (if found_bound e pat dist k \<le> stack_entries e then found_bound e pat dist k else 0)) 0)
      (dist ! k) (to_int (pattern_size_after e pat k)) 0 (ds ! k) 0"
  have ls: "local_search e fb pat dist ds k =
      (case r of Inl err \<Rightarrow> Inl err | Inr (found', count, ncmp) \<Rightarrow> Inr (take count found'))"
    unfolding local_search_def Let_def r_def ..
  from assms have "r = Inl err"
    unfolding ls by (cases r) auto
  then show ?thesis
    unfolding r_def find_string_def by (rule scan_loop_error)
qed

lemma partition_and_collect_no_SizeError: "partition_and_collect e fb pat p \<noteq> Inl SizeError"
proof
  assume a: "partition_and_collect e fb pat p = Inl SizeError"
  define dist where "dist = root_distribute e fb pat p"
  define ds where "ds = root_displs e fb pat p"
  from a have "collect (map (local_search e fb pat dist ds) [0..<p]) = Inl SizeError"
    unfolding partition_and_collect_def Let_def dist_def [symmetric] ds_def [symmetric]
    by (simp split: if_splits sum.splits)
  then have "Inl SizeError \<in> set (map (local_search e fb pat dist ds) [0..<p])"
    by (rule collect_error)
  then obtain k where "local_search e fb pat dist ds k = Inl SizeError"
    by auto
  then show False
    by (auto dest: local_search_error)
qed

text \<open>
  Claim C4 says that the run fails with \<open>SizeError\<close> exactly when the pattern is longer
  than the corpus, and that the check passes whenever \<open>1 \<le> pattern_length \<le>
  corpus_length\<close>. The check compares the pattern with \<open>file_size - 1\<close>: a pattern as long
  as the corpus is rejected.
\<close>

theorem pattern_of_corpus_length_rejected:
  "1 \<le> length ''abcd'' \<and> length ''abcd'' \<le> length ''abcd''
   \<and> main (plain_env 4) ''abcd'' ''abcd'' 1 = Inl SizeError"
  by code_simp

text \<open>
  Claim C4, amended. For a corpus that is not empty, the run fails with \<open>SizeError\<close>
  exactly when the pattern is longer than the corpus without its final byte, and when the
  pattern is at most that long the size check passes and the run is what partitioning,
  matching and collecting give. The corpus length is within the range of \<open>intmax_t\<close>; what
  memory holds and what \<open>malloc\<close> grants make no difference.
\<close>

theorem size_error_iff:
  assumes "F \<noteq> []" and "int (length F) \<le> 2 ^ 64"
  shows "(main e F P p = Inl SizeError \<longleftrightarrow> length F - 1 < length P)
       \<and> (length P \<le> length F - 1 \<longrightarrow> main e F P p = partition_and_collect e F P p)"
proof -
  have len: "int (length F) - 1 = int (length F - 1)" using assms(1) by (cases F) simp_all
  have "0 \<le> int (length F) - 1" unfolding len by simp
  moreover have "int (length F) - 1 < 2 ^ 64" using assms(2) by linarith
  ultimately have "(int (length F) - 1) mod 2 ^ 64 = int (length F) - 1"
    by (rule mod_pos_pos_trivial)
  then have "size_check (int (length F)) (int (length P)) \<longleftrightarrow> int (length F - 1) < int (length P)"
    unfolding size_check_def len by (rule arg_cong)
  then have check: "size_check (int (length F)) (int (length P)) \<longleftrightarrow> length F - 1 < length P"
    by (simp only: of_nat_less_iff)
  have no: "partition_and_collect e F P p \<noteq> Inl SizeError"
    by (rule partition_and_collect_no_SizeError)
  show ?thesis
  proof (cases "length F - 1 < length P")
    case True
    with check show ?thesis by (simp add: main_def)
  next
    case False
    with check have "main e F P p = partition_and_collect e F P p" by (simp add: main_def)
    with no False show ?thesis by simp
  qed
qed

theorem size_error_iff_witness:
  "''abcde'' \<noteq> [] \<and> int (length ''abcde'') \<le> 2 ^ 64
   \<and> main (plain_env 5) ''abcde'' ''abcde'' 3 = Inl SizeError
   \<and> main (plain_env 4) ''abcde'' ''abcd'' 3 = partition_and_collect (plain_env 4) ''abcde'' ''abcd'' 3"
  using size_error_iff [of "''abcde''" "plain_env 5" "''abcde''" 3]
    size_error_iff [of "''abcde''" "plain_env 4" "''abcd''" 3]
  by simp

text \<open>
  An empty file is outside that statement. There \<open>file_size - 1\<close> is \<open>-1\<close>, which the
  comparison with the unsigned \<open>pattern_size\<close> reads as \<open>2^64 - 1\<close>: the check passes for
  every pattern.
\<close>

lemma empty_file_passes_size_check:
  "\<not> size_check 0 1 \<and> main (plain_env 1) [] ''a'' 2 = Inr []
   \<and> main (plain_env 1) [] ''a'' 1 = Inl AllocationError"
  by code_simp

section \<open>The matcher\<close>

lemma occurs_at_nth:
  assumes "i + length pat \<le> length fl"
  shows "occurs_at pat fl i \<longleftrightarrow> (\<forall>t<length pat. fl ! (i + t) = pat ! t)"
  using assms by (auto simp: occurs_at_def list_eq_iff_nth_eq)

lemma compare_loop_result:
  assumes "ps = int (length pat)" "i + length pat \<le> length fl" "j \<le> length pat"
  shows "\<exists>j' c'. compare_loop fl pat ps i j c = Inr (j', c') \<and> j' \<le> length pat
           \<and> (j' = length pat \<longleftrightarrow> (\<forall>t. j \<le> t \<and> t < length pat \<longrightarrow> fl ! (i + t) = pat ! t))"
  using assms
proof (induction fl pat ps i j c rule: compare_loop.induct)
  case (1 fl pat ps i j c)
  show ?case
  proof (cases "j < length pat")
    case False
    with 1(4) have "j = length pat" by simp
    then have "compare_loop fl pat ps i j c = Inr (j, c)"
      using 1(2) by (subst compare_loop.simps) simp
    then show ?thesis using \<open>j = length pat\<close> by auto
  next
    case True
    then have inb: "i + j < length fl \<and> j < length pat" using 1(3) by simp
    have cond: "int j < ps" using True 1(2) by simp
    show ?thesis
    proof (cases "fl ! (i + j) \<noteq> pat ! j")
      case ne: True
      have "compare_loop fl pat ps i j c = Inr (j, Suc c)"
        using cond inb ne by (subst compare_loop.simps) simp
      moreover have "\<not> (\<forall>t. j \<le> t \<and> t < length pat \<longrightarrow> fl ! (i + t) = pat ! t)"
        using ne True by auto
      ultimately show ?thesis using True by auto
    next
      case eq: False
      have unf: "compare_loop fl pat ps i j c = compare_loop fl pat ps i (Suc j) (Suc c)"
        using cond inb eq by (subst compare_loop.simps) simp
      from True have "Suc j \<le> length pat" by simp
      from 1(1) [OF cond inb _ 1(2) 1(3) this] eq
      obtain j' c' where r: "compare_loop fl pat ps i (Suc j) (Suc c) = Inr (j', c')"
        "j' \<le> length pat"
        "j' = length pat \<longleftrightarrow> (\<forall>t. Suc j \<le> t \<and> t < length pat \<longrightarrow> fl ! (i + t) = pat ! t)"
        by auto
      have "(\<forall>t. j \<le> t \<and> t < length pat \<longrightarrow> fl ! (i + t) = pat ! t)
            \<longleftrightarrow> (\<forall>t. Suc j \<le> t \<and> t < length pat \<longrightarrow> fl ! (i + t) = pat ! t)"
      proof (intro iffI allI impI)
        fix t assume a: "\<forall>t. j \<le> t \<and> t < length pat \<longrightarrow> fl ! (i + t) = pat ! t"
          and "Suc j \<le> t \<and> t < length pat"
        then show "fl ! (i + t) = pat ! t" by simp
      next
        fix t assume a: "\<forall>t. Suc j \<le> t \<and> t < length pat \<longrightarrow> fl ! (i + t) = pat ! t"
          and t: "j \<le> t \<and> t < length pat"
        show "fl ! (i + t) = pat ! t"
        proof (cases "t = j")
          case True then show ?thesis using eq by simp
        next
          case False
          then have "Suc j \<le> t" using t by simp
          then show ?thesis using a t by blast
        qed
      qed
      with r unf show ?thesis by auto
    qed
  qed
qed

lemma compare_loop_match:
  assumes "i + length pat \<le> length fl"
  shows "\<exists>j' c'. compare_loop fl pat (int (length pat)) i 0 c = Inr (j', c')
           \<and> (int j' = int (length pat) \<longleftrightarrow> occurs_at pat fl i)"
  using compare_loop_result [OF refl assms, of 0 c] assms
  by (auto simp: occurs_at_nth)

lemma scan_loop_result:
  assumes "fs = int (length fl)" "ps = int (length pat)"
    and "scan_loop fl pat fs ps d i (found, count, c) = Inr (found', count', c')"
    and "count \<le> length found"
  shows "count' \<le> length found' \<and> length found' = length found \<and>
         take count' found' =
           take count found
             @ map (\<lambda>t. to_int (int t + d)) (filter (occurs_at pat fl) [i..<nat (fs - ps + 1)])"
  using assms
proof (induction fl pat fs ps d i "(found, count, c)" arbitrary: found count c rule: scan_loop.induct)
  case (1 fl pat fs ps d i found count c)
  show ?case
  proof (cases "int i \<le> fs - ps")
    case False
    then have e: "[i..<nat (fs - ps + 1)] = []" by simp
    from 1(5) False have "found' = found" "count' = count"
      by (subst (asm) scan_loop.simps, simp)+
    then show ?thesis using 1(6) unfolding e by simp
  next
    case True
    then have fits: "i + length pat \<le> length fl" using 1(3,4) by simp
    from compare_loop_match [OF fits, of c]
    obtain j c1 where cl: "compare_loop fl pat ps i 0 c = Inr (j, c1)"
      and m: "int j = ps \<longleftrightarrow> occurs_at pat fl i"
      using 1(4) by auto
    have range: "[i..<nat (fs - ps + 1)] = i # [Suc i..<nat (fs - ps + 1)]"
      using True by (simp add: upt_conv_Cons)
    show ?thesis
    proof (cases "int j = ps")
      case j: True
      show ?thesis
      proof (cases "count < length found")
        case False
        with 1(5) True cl j show ?thesis
          by (subst (asm) scan_loop.simps) simp
      next
        case lt: True
        from 1(5) True cl j lt
        have rec: "scan_loop fl pat fs ps d (Suc i) (found[count := to_int (int i + d)], Suc count, c1)
                = Inr (found', count', c')"
          by (subst (asm) scan_loop.simps) simp
        have "Suc count \<le> length (found[count := to_int (int i + d)])" using lt by simp
        from 1(1) [OF True cl refl j lt 1(3) 1(4) rec this]
        have ih: "count' \<le> length found'" "length found' = length found"
          "take count' found' = take (Suc count) (found[count := to_int (int i + d)])
             @ map (\<lambda>t. to_int (int t + d)) (filter (occurs_at pat fl) [Suc i..<nat (fs - ps + 1)])"
          by simp_all
        have "take (Suc count) (found[count := to_int (int i + d)])
                = take count found @ [to_int (int i + d)]"
          using lt by (simp add: take_Suc_conv_app_nth)
        with ih m j range show ?thesis by simp
      qed
    next
      case j: False
      from 1(5) True cl j
      have rec: "scan_loop fl pat fs ps d (Suc i) (found, count, c1) = Inr (found', count', c')"
        by (subst (asm) scan_loop.simps) simp
      from 1(2) [OF True cl refl j 1(3) 1(4) rec 1(6)] m j range
      show ?thesis by simp
    qed
  qed
qed

text \<open>
  Claim C10. When the segment size is smaller than the pattern size the scan loop of
  \<open>find_string\<close> does not run: whatever the buffers hold, \<open>found\<close> and \<open>count\<close> are
  returned as they were (in \<open>main\<close> the count stays 0) and the number of byte comparisons
  does not change.
\<close>

theorem find_string_short_segment:
  "file_size < pattern_size \<Longrightarrow>
   find_string file pattern found file_size pattern_size count displacement ncmp =
     Inr (found, count, ncmp)"
  by (simp add: find_string_def scan_loop.simps)

theorem find_string_short_segment_witness:
  "(1::int) < 2 \<and> find_string ''a'' ''ab'' [] 1 2 0 7 0 = Inr ([], 0, 0)"
  using find_string_short_segment [of 1 2 "''a''" "''ab''" "[]" 0 7 0] by simp

text \<open>
  Claim C8 says that the matches found in a segment never exceed
  \<open>segment_size - pattern_size\<close>, the number of entries \<open>found\<close> is declared with. The loop
  visits \<open>segment_size - pattern_size + 1\<close> positions. In the segment \<open>aa\<close> the pattern
  \<open>a\<close> matches at both: with the declared single entry the second store leaves the
  array, and with room for two the count is 2. The run on the file \<open>aa\<close> followed by a
  newline, with one rank, has this segment.
\<close>

theorem matches_exceed_declared_capacity:
  "find_string ''aa'' ''a'' (replicate (nat (2 - 1)) 0) 2 1 0 0 0 = Inl FoundOverflow
   \<and> find_string ''aa'' ''a'' (replicate 2 0) 2 1 0 0 0 = Inr ([0, 1], 2, 2)
   \<and> main (plain_env 1) (''aa'' @ [CHR 0x0A]) ''a'' 1 = Inl FoundOverflow"
  by code_simp

text \<open>
  What does hold: a scan that starts with \<open>count = 0\<close> and returns has found at most
  \<open>file_size - pattern_size + 1\<close> matches, one for each position visited.
\<close>

lemma find_string_count_bound:
  assumes "fs = int (length fl)" and "ps = int (length pat)"
    and "find_string fl pat found fs ps 0 d n = Inr (found', count', n')"
  shows "count' \<le> nat (fs - ps + 1)"
proof -
  from assms(3) have "scan_loop fl pat fs ps d 0 (found, 0, n) = Inr (found', count', n')"
    by (simp add: find_string_def)
  from scan_loop_result [OF assms(1,2) this]
  have "count' \<le> length found'"
    and "take count' found'
           = map (\<lambda>t. to_int (int t + d)) (filter (occurs_at pat fl) [0..<nat (fs - ps + 1)])"
    by simp_all
  then have "count' = length (filter (occurs_at pat fl) [0..<nat (fs - ps + 1)])"
    by (metis length_map length_take min.absorb2)
  also have "\<dots> \<le> length [0..<nat (fs - ps + 1)]" by (rule length_filter_le)
  finally show ?thesis by simp
qed

section \<open>The aggregation\<close>

lemma length_gather_displs_loop: "length (gather_displs_loop rc p i d) = length d"
proof (induction rc p i d rule: gather_displs_loop.induct)
  case (1 rc p i d)
  show ?case
  proof (cases "i < p")
    case True
    then show ?thesis using 1 [OF True] by (subst gather_displs_loop.simps) simp
  next
    case False
    then show ?thesis by (subst gather_displs_loop.simps) simp
  qed
qed

lemma gather_displs_loop_prefix_sums:
  assumes "length rc = p" "length d = p" "1 \<le> i" "\<forall>k<i. k < p \<longrightarrow> d ! k = sum_list (take k rc)"
  shows "\<forall>k<p. gather_displs_loop rc p i d ! k = sum_list (take k rc)"
  using assms
proof (induction rc p i d rule: gather_displs_loop.induct)
  case (1 rc p i d)
  show ?case
  proof (cases "i < p")
    case False
    then show ?thesis using 1(5) by (subst gather_displs_loop.simps) simp
  next
    case True
    let ?d = "d[i := d ! (i - 1) + rc ! (i - 1)]"
    have unf: "gather_displs_loop rc p i d = gather_displs_loop rc p (Suc i) ?d"
      using True by (subst gather_displs_loop.simps) simp
    have "d ! (i - 1) = sum_list (take (i - 1) rc)" using 1(4,5) True by simp
    moreover have "take i rc = take (i - 1) rc @ [rc ! (i - 1)]"
      using 1(2,4) True take_Suc_conv_app_nth [of "i - 1" rc] by simp
    ultimately have new: "?d ! i = sum_list (take i rc)"
      using True 1(3) by simp
    have inv: "\<forall>k<Suc i. k < p \<longrightarrow> ?d ! k = sum_list (take k rc)"
      using new 1(5) by (auto simp: less_Suc_eq nth_list_update)
    from 1(1) [OF True 1(2) _ _ inv] 1(3) show ?thesis unfolding unf by simp
  qed
qed

lemma sum_list_take_lengths:
  "i \<le> length sent \<Longrightarrow> sum_list (take i (map length sent)) = length (concat (take i sent))"
  by (simp add: length_concat take_map)

lemma gatherv_concat:
  assumes "sent = pre @ rest" "i = length pre" "buf = concat pre @ junk"
    and "length junk = length (concat rest)"
    and "rc = map length sent"
    and "\<forall>k<length sent. dfg ! k = sum_list (take k rc)"
  shows "gatherv rest rc dfg i buf = concat sent"
  using assms
proof (induction rest arbitrary: pre i buf junk)
  case Nil
  then show ?case by simp
next
  case (Cons x rest)
  have i: "i < length sent" using Cons.prems by simp
  have "dfg ! i = sum_list (take i rc)" using Cons.prems(6) i by simp
  also have "\<dots> = length (concat pre)"
    using Cons.prems(1,2,5) by (simp add: length_concat)
  finally have pos: "dfg ! i = length (concat pre)" .
  have cnt: "rc ! i = length x" using Cons.prems(1,2,5) by (simp add: nth_append)
  have st: "store_at buf (dfg ! i) (take (rc ! i) x) = concat (pre @ [x]) @ drop (length x) junk"
    using pos cnt Cons.prems(3) by (simp add: store_at_def)
  have "gatherv rest rc dfg (Suc i) (concat (pre @ [x]) @ drop (length x) junk) = concat sent"
    using Cons.prems
    by (intro Cons.IH [of "pre @ [x]" "Suc i" _ "drop (length x) junk"]) simp_all
  then show ?case using st by simp
qed

lemma print_row_result:
  "print_row arr offset n j out = out @ map (\<lambda>t. arr ! (offset + t)) [j..<n]"
proof (induction arr offset n j out rule: print_row.induct)
  case (1 arr offset n j out)
  show ?case
  proof (cases "j < n")
    case True
    then show ?thesis using 1 [OF True]
      by (subst print_row.simps) (simp add: upt_conv_Cons)
  next
    case False
    then show ?thesis by (subst print_row.simps) simp
  qed
qed

lemma nth_slice: "offset + n \<le> length arr \<Longrightarrow>
   map (\<lambda>t. arr ! (offset + t)) [0..<n] = take n (drop offset arr)"
  by (rule nth_equalityI) simp_all

lemma concat_split_nth:
  "i < length sent \<Longrightarrow> concat sent = concat (take i sent) @ sent ! i @ concat (drop (Suc i) sent)"
  by (metis append_take_drop_id concat.simps(2) concat_append Cons_nth_drop_Suc)

lemma print_loop_concat:
  assumes "arr = concat sent" "rc = map length sent" "p = length sent" "i \<le> p"
    and "offset = length (concat (take i sent))"
  shows "print_loop arr rc p i offset out = out @ concat (drop i sent)"
  using assms
proof (induction arr rc p i offset out rule: print_loop.induct)
  case (1 arr rc p i offset out)
  show ?case
  proof (cases "i < p")
    case False
    then show ?thesis using 1(4,5) by (subst print_loop.simps) simp
  next
    case True
    have i: "i < length sent" using True 1(4) by simp
    have cnt: "rc ! i = length (sent ! i)" using i 1(3) by simp
    have split: "arr = concat (take i sent) @ sent ! i @ concat (drop (Suc i) sent)"
      using concat_split_nth [OF i] 1(2) by simp
    have fits: "offset + length (sent ! i) \<le> length arr"
      using 1(6) by (subst split) simp
    have "take (length (sent ! i)) (drop offset arr) = sent ! i"
      using 1(6) by (subst split) simp
    then have row: "print_row arr offset (rc ! i) 0 out = out @ sent ! i"
      using nth_slice [OF fits] by (simp add: print_row_result cnt)
    have off: "offset + rc ! i = length (concat (take (Suc i) sent))"
      using 1(6) cnt i by (simp add: take_Suc_conv_app_nth)
    have "print_loop arr rc p i offset out =
          print_loop arr rc p (Suc i) (offset + rc ! i) (print_row arr offset (rc ! i) 0 out)"
      using True by (subst print_loop.simps) simp
    also have "\<dots> = print_row arr offset (rc ! i) 0 out @ concat (drop (Suc i) sent)"
      using True by (intro 1(1) [OF True 1(2) 1(3) 1(4) _ off]) simp
    also have "\<dots> = (out @ sent ! i) @ concat (drop (Suc i) sent)"
      by (simp only: row)
    also have "\<dots> = out @ concat (drop i sent)"
      using i by (simp flip: Cons_nth_drop_Suc)
    finally show ?thesis .
  qed
qed

lemma aggregate_concat:
  assumes "length sent = p"
  shows "aggregate sent p = concat sent"
proof (cases "p = 0")
  case True
  then have "sent = []" using assms by simp
  then show ?thesis using True
    by (simp add: aggregate_def print_index_def print_loop.simps)
next
  case False
  let ?rc = "map length sent"
  let ?dfg = "gather_displs_loop ?rc p 1 ((replicate p 0)[0 := 0])"
  have dfg: "\<forall>k<p. ?dfg ! k = sum_list (take k ?rc)"
    using assms False by (intro gather_displs_loop_prefix_sums) (auto simp: less_Suc_eq)
  have "gatherv sent ?rc ?dfg 0 (replicate (sum_list ?rc) 0) = concat sent"
    using dfg assms
    by (intro gatherv_concat [where pre = "[]" and junk = "replicate (sum_list ?rc) 0"])
       (simp_all add: length_concat)
  then show ?thesis
    using assms print_loop_concat [of "concat sent" sent ?rc p 0 0 "[]"]
    by (simp add: aggregate_def print_index_def)
qed

section \<open>Whole runs\<close>

lemma occurs_at_segment:
  assumes "t + length P \<le> c" "d + c \<le> length F"
  shows "occurs_at P (take c (drop d F)) t \<longleftrightarrow> occurs_at P F (d + t)"
proof -
  have "take (length P) (drop t (take c (drop d F))) = take (length P) (drop (d + t) F)"
    using assms by (simp add: drop_take min_def add.commute)
  then show ?thesis by (simp add: occurs_at_def)
qed

text \<open>
  What a rank sends when its range lies inside \<open>file_buffer\<close> and the file and the
  pattern are shorter than \<open>2^31\<close> bytes: every offset stored is within the range of
  \<open>int\<close>.
\<close>

lemma local_search_result:
  assumes "0 \<le> ds ! k" "0 \<le> dist ! k" "ds ! k + dist ! k \<le> int (length F)"
    and "int (length F) < 2 ^ 31" and "int (length P) < 2 ^ 31"
    and "local_search e F P dist ds k = Inr xs"
  shows "xs = map (\<lambda>t. int t + ds ! k)
           (filter (\<lambda>t. occurs_at P F (nat (ds ! k) + t)) [0..<nat (dist ! k - int (length P) + 1)])"
proof -
  let ?seg = "take (nat (dist ! k)) (drop (nat (ds ! k)) F)"
  let ?N = "nat (dist ! k - int (length P) + 1)"
  define found where "found = replicate
      (nat (if found_bound e P dist k \<le> stack_entries e then found_bound e P dist k else 0)) (0::int)"
  define r where "r = find_string ?seg P found (dist ! k) (to_int (pattern_size_after e P k)) 0 (ds ! k) 0"
  have len: "int (length ?seg) = dist ! k" using assms(1-3) by simp
  have ps: "to_int (pattern_size_after e P k) = int (length P)"
    using assms(5) by (rule to_int_pattern_size_after)
  have ls: "local_search e F P dist ds k =
      (case r of Inl err \<Rightarrow> Inl err | Inr (found', count, ncmp) \<Rightarrow> Inr (take count found'))"
    unfolding local_search_def Let_def r_def found_def ..
  from assms(6) obtain f c n where rv: "r = Inr (f, c, n)" and xs: "xs = take c f"
    unfolding ls by (cases r) auto
  from rv have fs: "scan_loop ?seg P (dist ! k) (int (length P)) (ds ! k) 0 (found, 0, 0) = Inr (f, c, n)"
    unfolding r_def find_string_def ps .
  from scan_loop_result [OF len [symmetric] refl fs]
  have "take c f = map (\<lambda>t. to_int (int t + ds ! k)) (filter (occurs_at P ?seg) [0..<?N])"
    by simp
  also have "filter (occurs_at P ?seg) [0..<?N] = filter (\<lambda>t. occurs_at P F (nat (ds ! k) + t)) [0..<?N]"
  proof (rule filter_cong [OF refl])
    fix t assume "t \<in> set [0..<?N]"
    then have "t + length P \<le> nat (dist ! k)" by auto
    moreover have "nat (ds ! k) + nat (dist ! k) \<le> length F" using assms(1-3) by linarith
    ultimately show "occurs_at P ?seg t = occurs_at P F (nat (ds ! k) + t)"
      by (rule occurs_at_segment)
  qed
  also have "map (\<lambda>t. to_int (int t + ds ! k)) (filter (\<lambda>t. occurs_at P F (nat (ds ! k) + t)) [0..<?N])
      = map (\<lambda>t. int t + ds ! k) (filter (\<lambda>t. occurs_at P F (nat (ds ! k) + t)) [0..<?N])"
  proof (rule map_cong [OF refl])
    fix t assume "t \<in> set (filter (\<lambda>t. occurs_at P F (nat (ds ! k) + t)) [0..<?N])"
    then have "t < ?N" by simp
    then have "int t + ds ! k \<le> ds ! k + dist ! k" by linarith
    then have "int t + ds ! k < 2 ^ 31" using assms(3,4) by linarith
    moreover have "0 \<le> int t + ds ! k" using assms(1) by simp
    ultimately show "to_int (int t + ds ! k) = int t + ds ! k" by (intro to_int_nonneg)
  qed
  finally show ?thesis using xs by simp
qed

lemma collect_Inr: "collect rs = Inr xs \<Longrightarrow> rs = map Inr xs"
  by (induction rs arbitrary: xs rule: collect.induct) (auto split: sum.splits)

lemma main_Inr:
  assumes "main e F P p = Inr res"
  defines "dist \<equiv> root_distribute e F P p"
  defines "ds \<equiv> root_displs e F P p"
  shows "\<exists>sent. length sent = p \<and> res = concat sent
          \<and> (\<forall>k<p. 0 \<le> dist ! k \<and> 0 \<le> ds ! k \<and> ds ! k + dist ! k \<le> int (length F)
                \<and> local_search e F P dist ds k = Inr (sent ! k))"
proof -
  define rs where "rs = collect (map (local_search e F P dist ds) [0..<p])"
  from assms(1) have pc: "partition_and_collect e F P p = Inr res"
    by (simp add: main_def split: if_splits)
  have unf: "partition_and_collect e F P p =
     (if malloc_null e (int (length F)) then Inl FileAllocationError
      else if list_ex (\<lambda>rank. malloc_null e (dist ! rank)) [0..<p] then Inl AllocationError
      else if list_ex (\<lambda>rank. malloc_null e (pattern_size_before e P rank)) [0..<p]
        then Inl PatternAllocationError
      else if list_ex (\<lambda>rank. pattern_size_before e P rank < to_int (pattern_size_after e P rank)) [0..<p]
        then Inl PatternOverflow
      else if list_ex (\<lambda>rank. ds ! rank < 0 \<or> int (length F) < ds ! rank + dist ! rank) [0..<p]
        then Inl ScatterOutOfBounds
      else (case rs of
              Inl err \<Rightarrow> Inl err
            | Inr sent \<Rightarrow>
                if 0 < sum_list (map length sent)
                   \<and> malloc_null e (4 * int (sum_list (map length sent)))
                  then Inl NullReceiveBuffer
                else Inr (aggregate sent p)))"
    unfolding partition_and_collect_def Let_def dist_def ds_def rs_def ..
  from pc have a: "\<not> list_ex (\<lambda>rank. malloc_null e (dist ! rank)) [0..<p]"
    and b: "\<not> list_ex (\<lambda>rank. ds ! rank < 0 \<or> int (length F) < ds ! rank + dist ! rank) [0..<p]"
    unfolding unf by (simp_all split: if_splits)
  from pc obtain sent where c: "rs = Inr sent" and r: "res = aggregate sent p"
    unfolding unf by (cases rs) (simp_all split: if_splits)
  from collect_Inr [OF c [unfolded rs_def]]
  have m: "map (local_search e F P dist ds) [0..<p] = map Inr sent" .
  then have len: "length sent = p" by (metis length_map length_upt minus_nat.diff_0)
  have "\<forall>k<p. local_search e F P dist ds k = Inr (sent ! k)"
  proof (intro allI impI)
    fix k assume "k < p"
    then have "map (local_search e F P dist ds) [0..<p] ! k = map Inr sent ! k" using m by simp
    then show "local_search e F P dist ds k = Inr (sent ! k)" using \<open>k < p\<close> len by simp
  qed
  moreover have "\<forall>k<p. 0 \<le> dist ! k \<and> 0 \<le> ds ! k \<and> ds ! k + dist ! k \<le> int (length F)"
    using a b by (auto simp: list_ex_iff not_less malloc_null_def)
  ultimately show ?thesis using len r aggregate_concat [OF len] by auto
qed

text \<open>
  Claim C3 says that, for every corpus, every offset of the result is an occurrence of
  the pattern and each rank's list of matches is ascending. The matcher stores each
  offset in an \<open>int\<close>. A rank whose segment starts at offset \<open>2^31 - 1\<close> of the corpus
  calls \<open>find_string\<close> with that number as \<open>displacment\<close>; when its segment holds
  \<open>aba\<close> and \<open>found\<close> has the \<open>3 - 1\<close> entries that \<open>main\<close> declares, the pattern \<open>a\<close>
  is found at the first and at the third byte, and the second offset, \<open>2^31 + 1\<close>, is
  stored as \<open>-2147483647\<close>: the list is not ascending and its second entry is no offset
  of the corpus.
\<close>

theorem offset_from_2_31_wraps:
  "find_string ''aba'' ''a'' (replicate (nat (3 - 1)) 0) 3 1 0 2147483647 0
     = Inr ([2147483647, - 2147483647], 2, 3)
   \<and> \<not> (0 \<le> (- 2147483647 :: int))
   \<and> \<not> sorted_wrt (<) [2147483647, - 2147483647 :: int]"
  by code_simp

text \<open>
  Such a displacement is what the tables hold for the second of two ranks that share a
  corpus of \<open>2^32 - 1\<close> bytes.
\<close>

lemma displacement_of_2_31:
  "distribute_file (4294967295 - 1) 1 2 [7, 7] = [2147483647, 2147483647]
   \<and> displacment [9, 9] [2147483647, 2147483647] 1 2 = [0, 2147483647]"
  by code_simp

text \<open>
  Claim C3, amended. In every run that returns a result, where the file and the pattern
  together hold less than \<open>2^31\<close> bytes and every rank declares \<open>found\<close> with a bound
  that is positive and that the stack holds, every offset of the result is an occurrence
  of the pattern: the \<open>length P\<close> bytes of the corpus from that offset are the pattern.
  The list of matches each rank sends is in ascending order. What memory held and what
  \<open>malloc\<close> granted in the run makes no difference.
\<close>

theorem reported_offsets_occur:
  assumes "main e F P p = Inr res"
    and "int (length F) + int (length P) < 2 ^ 31"
    and "found_bounds_valid e F P p"
  shows "(\<forall>off\<in>set res. 0 \<le> off \<and> take (length P) (drop (nat off) F) = P)
       \<and> (let distribute = root_distribute e F P p;
              displs = root_displs e F P p
          in \<forall>rank<p. \<forall>xs. local_search e F P distribute displs rank = Inr xs \<longrightarrow> sorted_wrt (<) xs)"
proof -
  define dist where "dist = root_distribute e F P p"
  define ds where "ds = root_displs e F P p"
  have fb: "int (length F) < 2 ^ 31" and pb: "int (length P) < 2 ^ 31"
    using assms(2) by linarith+
  from main_Inr [OF assms(1)] obtain sent where
    len: "length sent = p" and res: "res = concat sent"
    and ranks: "\<forall>k<p. 0 \<le> dist ! k \<and> 0 \<le> ds ! k \<and> ds ! k + dist ! k \<le> int (length F)
                \<and> local_search e F P dist ds k = Inr (sent ! k)"
    unfolding dist_def ds_def by blast
  have shape: "xs = map (\<lambda>t. int t + ds ! k)
           (filter (\<lambda>t. occurs_at P F (nat (ds ! k) + t)) [0..<nat (dist ! k - int (length P) + 1)])"
    if "k < p" "local_search e F P dist ds k = Inr xs" for k xs
  proof -
    from ranks that(1) have "0 \<le> ds ! k" "0 \<le> dist ! k" "ds ! k + dist ! k \<le> int (length F)"
      by simp_all
    then show ?thesis using fb pb that(2) by (rule local_search_result)
  qed
  have "0 \<le> off \<and> take (length P) (drop (nat off) F) = P" if "off \<in> set res" for off
  proof -
    from that res obtain ys where "ys \<in> set sent" "off \<in> set ys" by auto
    then obtain k where k: "k < p" "off \<in> set (sent ! k)"
      using len by (metis in_set_conv_nth)
    with ranks have "local_search e F P dist ds k = Inr (sent ! k)" by simp
    from shape [OF k(1) this] k(2)
    obtain t where "off = int t + ds ! k" "occurs_at P F (nat (ds ! k) + t)" by auto
    moreover have "0 \<le> ds ! k" using ranks k(1) by simp
    ultimately show ?thesis by (simp add: occurs_at_def nat_add_distrib add.commute)
  qed
  moreover have "sorted_wrt (<) xs" if "k < p" "local_search e F P dist ds k = Inr xs" for k xs
  proof -
    have "sorted_wrt (<) (filter (\<lambda>t. occurs_at P F (nat (ds ! k) + t)) [0..<nat (dist ! k - int (length P) + 1)])"
      by (rule sorted_wrt_filter) simp
    then show ?thesis
      unfolding shape [OF that] by (simp add: sorted_wrt_map)
  qed
  ultimately show ?thesis
    unfolding Let_def dist_def [symmetric] ds_def [symmetric] by blast
qed

theorem reported_offsets_occur_witness:
  "main (plain_env 2) ''abababxxZ'' ''ab'' 2 = Inr [0, 2, 4]
   \<and> int (length ''abababxxZ'') + int (length ''ab'') < 2 ^ 31
   \<and> found_bounds_valid (plain_env 2) ''abababxxZ'' ''ab'' 2
   \<and> (0::int) \<le> 2 \<and> take (length ''ab'') (drop (nat 2) ''abababxxZ'') = ''ab''
   \<and> local_search (plain_env 2) ''abababxxZ'' ''ab'' [5, 4] [0, 4] 0 = Inr [0, 2]
   \<and> sorted_wrt (<) [0, 2 :: int]"
proof -
  have r: "main (plain_env 2) ''abababxxZ'' ''ab'' 2 = Inr [0, 2, 4]" by code_simp
  have b: "int (length ''abababxxZ'') + int (length ''ab'') < 2 ^ 31" by simp
  have v: "found_bounds_valid (plain_env 2) ''abababxxZ'' ''ab'' 2" by code_simp
  have d: "root_distribute (plain_env 2) ''abababxxZ'' ''ab'' 2 = [5, 4]" by code_simp
  have s: "root_displs (plain_env 2) ''abababxxZ'' ''ab'' 2 = [0, 4]" by code_simp
  have l: "local_search (plain_env 2) ''abababxxZ'' ''ab'' [5, 4] [0, 4] 0 = Inr [0, 2]" by code_simp
  from reported_offsets_occur [OF r b v]
  have "\<forall>off\<in>set [0, 2, 4]. 0 \<le> off \<and> take (length ''ab'') (drop (nat off) ''abababxxZ'') = ''ab''"
    and "\<forall>rank<2. \<forall>xs. local_search (plain_env 2) ''abababxxZ'' ''ab'' [5, 4] [0, 4] rank = Inr xs
           \<longrightarrow> sorted_wrt (<) xs"
    unfolding Let_def d s by blast+
  with l have "(0::int) \<le> 2 \<and> take (length ''ab'') (drop (nat 2) ''abababxxZ'') = ''ab''"
    and "sorted_wrt (<) [0, 2 :: int]"
    by auto
  with r b v l show ?thesis by blast
qed

lemma count_list_concat:
  "count_list (concat xss) x = sum_list (map (\<lambda>xs. count_list xs x) xss)"
  by (induction xss) simp_all

lemma count_list_distinct:
  "distinct xs \<Longrightarrow> count_list xs x = (if x \<in> set xs then 1 else 0)"
  by (induction xs) auto

lemma sum_list_unique_index:
  assumes "k < p" "Q k" "\<forall>j<p. Q j \<longrightarrow> j = k"
  shows "sum_list (map (\<lambda>j. if Q j then 1 else 0) [0..<p]) = (1::nat)"
proof -
  have pt: "(if Q j then 1 else 0) = (if j = k then 1 else (0::nat))" if "j \<in> {0..<p}" for j
  proof (cases "j = k")
    case True
    then show ?thesis using assms(2) by simp
  next
    case False
    then have "\<not> Q j" using assms(3) that by auto
    then show ?thesis using False by simp
  qed
  have "sum_list (map (\<lambda>j. if Q j then 1 else 0) [0..<p]) = (\<Sum>j\<in>{0..<p}. if Q j then 1 else (0::nat))"
    by (simp add: interv_sum_list_conv_sum_set_nat)
  also have "\<dots> = (\<Sum>j\<in>{0..<p}. if j = k then 1 else 0)"
    by (rule sum.cong [OF refl pt])
  also have "\<dots> = 1" using assms(1) by simp
  finally show ?thesis .
qed

lemma unique_rank:
  assumes "0 < p" "off + m \<le> L"
  shows "\<exists>k<p. (territory_start L p k \<le> off \<and> off < territory_start L p k + scanned L m p k)
           \<and> (\<forall>j<p. territory_start L p j \<le> off \<and> off < territory_start L p j + scanned L m p j \<longrightarrow> j = k)"
proof -
  let ?A = "\<lambda>j. j < p \<and> territory_start L p j \<le> off"
  have A0: "?A 0" using assms(1) by (simp add: territory_start_def)
  have bound: "\<forall>y. ?A y \<longrightarrow> y < p" by simp
  from ex_has_greatest_nat [of ?A 0 "\<lambda>j. j" p, OF A0 bound]
  obtain k where kA: "?A k" and kmax': "\<forall>y. ?A y \<longrightarrow> y \<le> k" by blast
  have k: "k < p" "territory_start L p k \<le> off" using kA by simp_all
  have kmax: "j \<le> k" if "j < p" "territory_start L p j \<le> off" for j
    using kmax' that by blast
  have inner: "scanned L m p j = territory_start L p (Suc j) - territory_start L p j" if "j < p - 1" for j
  proof -
    have "int (L div p) + (if j < L mod p then 1 else 0) + (if j < p - 1 then int m - 1 else 0) - int m + 1
          = int (L div p + (if j < L mod p then 1 else 0))"
      using that by simp
    then have "scanned L m p j = L div p + (if j < L mod p then 1 else 0)"
      unfolding scanned_def by (simp only: nat_int)
    then show ?thesis by (simp add: territory_start_Suc)
  qed
  have here: "off < territory_start L p k + scanned L m p k"
  proof (cases "k < p - 1")
    case True
    have "Suc k < p" using True by arith
    then have "\<not> territory_start L p (Suc k) \<le> off"
      using kmax [of "Suc k"] by auto
    moreover have "territory_start L p k \<le> territory_start L p (Suc k)" by (rule territory_start_mono) simp
    ultimately show ?thesis using inner [OF True] by simp
  next
    case False
    then have kl: "k = p - 1" using k(1) by simp
    have "L mod p < p" using assms(1) by simp
    then have "\<not> p - 1 < L mod p" by simp
    then have sc: "scanned L m p k = nat (int (L div p) - int m + 1)"
      using kl by (simp add: scanned_def)
    have fin: "territory_start L p k + L div p = L" using territory_start_last [OF assms(1)] kl by simp
    with assms(2) k(2) have mq: "m \<le> L div p" by arith
    then have "int (L div p) - int m + 1 = int (L div p - m + 1)" by (simp add: of_nat_diff)
    then have "scanned L m p k = L div p - m + 1" unfolding sc by (simp only: nat_int)
    then show ?thesis using fin assms(2) k(2) mq by arith
  qed
  have "j = k" if "j < p" "territory_start L p j \<le> off" "off < territory_start L p j + scanned L m p j" for j
  proof (rule ccontr)
    assume "j \<noteq> k"
    then have lt: "j < k" using kmax [OF that(1,2)] by simp
    then have "j < p - 1" using k(1) by simp
    from inner [OF this] that(3) have "off < territory_start L p (Suc j)"
      using territory_start_mono [of j "Suc j" L p] by simp
    moreover have "territory_start L p (Suc j) \<le> territory_start L p k" using lt by (intro territory_start_mono) simp
    ultimately show False using k(2) by simp
  qed
  with k here show ?thesis by blast
qed

lemma rank_count:
  assumes "xs = map (\<lambda>t. int t + int c) (filter (\<lambda>t. occurs_at P F (c + t)) [0..<n])"
    and "occurs_at P F off"
  shows "count_list xs (int off) = (if c \<le> off \<and> off < c + n then 1 else 0)"
proof -
  have "distinct xs"
    unfolding assms(1) by (simp add: distinct_map inj_on_def)
  moreover have "int off \<in> set xs \<longleftrightarrow> c \<le> off \<and> off < c + n"
  proof
    assume "int off \<in> set xs"
    then obtain t where "t < n" "int off = int t + int c" unfolding assms(1) by auto
    then show "c \<le> off \<and> off < c + n" by linarith
  next
    assume a: "c \<le> off \<and> off < c + n"
    then have "off - c < n" by arith
    moreover have "occurs_at P F (c + (off - c))" "int (off - c) + int c = int off"
      using a assms(2) by simp_all
    ultimately have "off - c < n" "occurs_at P F (c + (off - c))" "int (off - c) + int c = int off"
      by simp_all
    then have "off - c \<in> set (filter (\<lambda>t. occurs_at P F (c + t)) [0..<n])" by simp
    then have "int (off - c) + int c \<in> (\<lambda>t. int t + int c) ` set (filter (\<lambda>t. occurs_at P F (c + t)) [0..<n])"
      by (rule imageI)
    then show "int off \<in> set xs"
      unfolding assms(1) set_map using \<open>int (off - c) + int c = int off\<close> by simp
  qed
  ultimately show ?thesis by (simp add: count_list_distinct)
qed

lemma run_result_shape:
  assumes "main e F P p = Inr res" and "1 \<le> p" and "F \<noteq> []" and "1 \<le> length P"
    and "int (length F) + int (length P) < 2 ^ 31"
  shows "\<exists>sent. length sent = p \<and> res = concat sent \<and>
     (\<forall>k<p. sent ! k = map (\<lambda>t. int t + int (territory_start (length F - 1) p k))
        (filter (\<lambda>t. occurs_at P F (territory_start (length F - 1) p k + t))
           [0..<scanned (length F - 1) (length P) p k]))"
proof -
  define L where "L = length F - 1"
  define m where "m = length P"
  define dist where "dist = root_distribute e F P p"
  define ds where "ds = root_displs e F P p"
  have p: "0 < p" using assms(2) by simp
  have fl: "int (length F) - 1 = int L" unfolding L_def using assms(3) by (cases F) simp_all
  have m1: "1 \<le> int m" using assms(4) unfolding m_def by simp
  have bL: "int L + int m < 2 ^ 31" using assms(5) fl unfolding m_def by linarith
  have fb: "int (length F) < 2 ^ 31" and pb: "int (length P) < 2 ^ 31"
    using assms(5) by linarith+
  have lu: "length (map f [0..<p]) = p" for f :: "nat \<Rightarrow> int" by simp
  from main_Inr [OF assms(1)] obtain sent where
    len: "length sent = p" and res: "res = concat sent"
    and ranks: "\<forall>k<p. 0 \<le> dist ! k \<and> 0 \<le> ds ! k \<and> ds ! k + dist ! k \<le> int (length F)
                \<and> local_search e F P dist ds k = Inr (sent ! k)"
    unfolding dist_def ds_def by blast
  have dk: "nat (dist ! k - int (length P) + 1) = scanned L m p k" if "k < p" for k
  proof -
    have d: "dist ! k = int (L div p) + (if k < L mod p then 1 else 0)
              + (if k < p - 1 then int m - 1 else 0)"
      unfolding dist_def root_distribute_def fl m_def [symmetric]
      using p that lu m1 bL by (rule distribute_file_nth)
    show ?thesis
      unfolding d scanned_def m_def by (rule refl)
  qed
  have sk: "ds ! k = int (territory_start L p k)" if "k < p" for k
    unfolding ds_def root_displs_def root_distribute_def fl m_def [symmetric]
    using p lu lu m1 bL that by (rule displacment_closed)
  have "sent ! k = map (\<lambda>t. int t + int (territory_start L p k))
        (filter (\<lambda>t. occurs_at P F (territory_start L p k + t)) [0..<scanned L m p k])"
    if "k < p" for k
  proof -
    from ranks that have b: "0 \<le> ds ! k" "0 \<le> dist ! k" "ds ! k + dist ! k \<le> int (length F)"
      and ls: "local_search e F P dist ds k = Inr (sent ! k)" by simp_all
    show ?thesis
      using local_search_result [OF b fb pb ls] unfolding dk [OF that] sk [OF that] by (simp only: nat_int)
  qed
  then have "\<forall>k<p. sent ! k = map (\<lambda>t. int t + int (territory_start L p k))
        (filter (\<lambda>t. occurs_at P F (territory_start L p k + t)) [0..<scanned L m p k])"
    by simp
  with len res show ?thesis unfolding L_def m_def by (intro exI [of _ sent]) simp
qed

text \<open>
  Claim C2 says that every position \<open>o\<close> in \<open>[0, |C| - |P|]\<close> where the pattern occurs
  is in the result exactly once. The ranks share out the corpus without its final byte:
  in the corpus \<open>aab\<close> the pattern \<open>b\<close> occurs at 2, and the run with one rank, whose
  \<open>found\<close> is declared with one entry, reports nothing.
\<close>

theorem occurrence_at_final_byte_missed:
  "1 \<le> length ''b'' \<and> 2 + length ''b'' \<le> length ''aab''
   \<and> take (length ''b'') (drop 2 ''aab'') = ''b''
   \<and> found_bounds_valid (plain_env 1) ''aab'' ''b'' 1
   \<and> main (plain_env 1) ''aab'' ''b'' 1 = Inr []"
  by code_simp

text \<open>
  Claim C2, amended. In every run that returns a result, with at least one rank and a
  pattern that is not empty, where the file and the pattern together hold less than
  \<open>2^31\<close> bytes and every rank declares \<open>found\<close> with a bound that is positive and that
  the stack holds, every position where the pattern occurs and ends before the final byte
  of the corpus is in the result exactly once; seams between ranks make no difference,
  nor does what memory held and what \<open>malloc\<close> granted in the run.
\<close>

theorem occurrences_reported_once:
  assumes "main e F P p = Inr res" and "1 \<le> p" and "1 \<le> length P"
    and "int (length F) + int (length P) < 2 ^ 31"
    and "found_bounds_valid e F P p"
    and "off + length P \<le> length F - 1" and "take (length P) (drop off F) = P"
  shows "count_list res (int off) = 1"
proof -
  define L where "L = length F - 1"
  define m where "m = length P"
  have p: "0 < p" using assms(2) by simp
  have F: "F \<noteq> []" using assms(3,6) by auto
  have occ: "occurs_at P F off" using assms(7) by (simp add: occurs_at_def)
  from run_result_shape [OF assms(1,2) F assms(3,4)] obtain sent where
    len: "length sent = p" and res: "res = concat sent"
    and ranks: "\<forall>k<p. sent ! k = map (\<lambda>t. int t + int (territory_start L p k))
        (filter (\<lambda>t. occurs_at P F (territory_start L p k + t)) [0..<scanned L m p k])"
    unfolding L_def m_def by blast
  have cnt: "count_list (sent ! k) (int off) =
      (if territory_start L p k \<le> off \<and> off < territory_start L p k + scanned L m p k then 1 else 0)"
    if "k < p" for k
    using ranks that by (intro rank_count [OF _ occ]) simp
  have "count_list res (int off) = sum_list (map (\<lambda>xs. count_list xs (int off)) sent)"
    unfolding res by (rule count_list_concat)
  also have "\<dots> = sum_list (map (\<lambda>k. count_list (sent ! k) (int off)) [0..<p])"
  proof -
    have "map (\<lambda>xs. count_list xs (int off)) sent
        = map (\<lambda>xs. count_list xs (int off)) (map ((!) sent) [0..<length sent])"
      by (simp only: map_nth)
    also have "\<dots> = map (\<lambda>k. count_list (sent ! k) (int off)) [0..<p]"
      unfolding len by (simp only: map_map comp_def)
    finally show ?thesis by (rule arg_cong)
  qed
  also have "\<dots> = sum_list (map (\<lambda>k. if territory_start L p k \<le> off
                \<and> off < territory_start L p k + scanned L m p k then 1 else 0) [0..<p])"
  proof -
    have "map (\<lambda>k. count_list (sent ! k) (int off)) [0..<p]
        = map (\<lambda>k. if territory_start L p k \<le> off
                \<and> off < territory_start L p k + scanned L m p k then 1 else 0) [0..<p]"
    proof (rule map_cong [OF refl])
      fix k assume "k \<in> set [0..<p]"
      then have "k < p" by simp
      then show "count_list (sent ! k) (int off) = (if territory_start L p k \<le> off
          \<and> off < territory_start L p k + scanned L m p k then 1 else 0)" by (rule cnt)
    qed
    then show ?thesis by (rule arg_cong)
  qed
  also have "\<dots> = 1"
  proof -
    have "off + m \<le> L" using assms(6) unfolding L_def m_def .
    from unique_rank [OF p this] obtain k where "k < p"
      "territory_start L p k \<le> off \<and> off < territory_start L p k + scanned L m p k"
      "\<forall>j<p. territory_start L p j \<le> off \<and> off < territory_start L p j + scanned L m p j \<longrightarrow> j = k"
      by blast
    then show ?thesis by (rule sum_list_unique_index)
  qed
  finally show ?thesis .
qed

theorem occurrences_reported_once_witness:
  "main (plain_env 2) ''xxxabxxxZ'' ''ab'' 2 = Inr [3] \<and> (1::nat) \<le> 2 \<and> 1 \<le> length ''ab''
   \<and> int (length ''xxxabxxxZ'') + int (length ''ab'') < 2 ^ 31
   \<and> found_bounds_valid (plain_env 2) ''xxxabxxxZ'' ''ab'' 2
   \<and> 3 + length ''ab'' \<le> length ''xxxabxxxZ'' - 1
   \<and> take (length ''ab'') (drop 3 ''xxxabxxxZ'') = ''ab''
   \<and> count_list [3] (int 3) = 1"
proof -
  have r: "main (plain_env 2) ''xxxabxxxZ'' ''ab'' 2 = Inr [3]" by code_simp
  have v: "found_bounds_valid (plain_env 2) ''xxxabxxxZ'' ''ab'' 2" by code_simp
  have h: "(1::nat) \<le> 2" "1 \<le> length ''ab''"
    "int (length ''xxxabxxxZ'') + int (length ''ab'') < 2 ^ 31"
    by simp_all
  have g: "3 + length ''ab'' \<le> length ''xxxabxxxZ'' - 1"
    "take (length ''ab'') (drop 3 ''xxxabxxxZ'') = ''ab''"
    by simp_all
  from occurrences_reported_once [OF r h v g] r h v g show ?thesis by blast
qed

text \<open>
  Claim C5 says that the corpus \<open>aaaaa\<close> with pattern \<open>aa\<close> and two ranks gives
  \<open>[0, 1, 2, 3]\<close>. The tables give rank 0 the segment \<open>aaa\<close> from offset 0 and rank 1 the
  segment \<open>aa\<close> from offset 2. Rank 0 declares \<open>found\<close> with \<open>3 - 2 = 1\<close> entry and finds
  the pattern at 0 and at 1: the second store is outside the array. The run does not give
  the sequence of the claim.
\<close>

theorem spec_scenario_not_emitted:
  "root_distribute (plain_env 2) ''aaaaa'' ''aa'' 2 = [3, 2]
   \<and> root_displs (plain_env 2) ''aaaaa'' ''aa'' 2 = [0, 2]
   \<and> find_string ''aaa'' ''aa'' (replicate (nat (3 - 2)) 0) 3 2 0 0 0 = Inl FoundOverflow
   \<and> main (plain_env 2) ''aaaaa'' ''aa'' 2 = Inl FoundOverflow
   \<and> main (plain_env 2) ''aaaaa'' ''aa'' 2 \<noteq> Inr [0, 1, 2, 3]"
proof -
  have "root_distribute (plain_env 2) ''aaaaa'' ''aa'' 2 = [3, 2]
   \<and> root_displs (plain_env 2) ''aaaaa'' ''aa'' 2 = [0, 2]
   \<and> find_string ''aaa'' ''aa'' (replicate (nat (3 - 2)) 0) 3 2 0 0 0 = Inl FoundOverflow
   \<and> main (plain_env 2) ''aaaaa'' ''aa'' 2 = Inl FoundOverflow" by code_simp
  then show ?thesis by simp
qed

text \<open>
  When the file holds one more byte after \<open>aaaaa\<close>, a newline, rank 0 is given \<open>aaaa\<close>,
  declares two entries and finds three matches: the run leaves \<open>found\<close> again.
\<close>

lemma spec_scenario_with_newline:
  "root_distribute (plain_env 2) (''aaaaa'' @ [CHR 0x0A]) ''aa'' 2 = [4, 2]
   \<and> root_displs (plain_env 2) (''aaaaa'' @ [CHR 0x0A]) ''aa'' 2 = [0, 3]
   \<and> find_string ''aaaa'' ''aa'' (replicate (nat (4 - 2)) 0) 4 2 0 0 0 = Inl FoundOverflow
   \<and> main (plain_env 2) (''aaaaa'' @ [CHR 0x0A]) ''aa'' 2 = Inl FoundOverflow"
  by code_simp

text \<open>
  The runs with \<open>p\<close> ranks and with one rank agree when both return a result, the file
  and the pattern together hold less than \<open>2^31\<close> bytes and the base share
  \<open>(file_size - 1) / p\<close> holds at least the \<open>pattern_size - 1\<close> bytes of an overlap: then
  the positions that the ranks scan are those that one rank scans, in the same order.
\<close>

lemma shifted_filter:
  "map (\<lambda>t. int t + int c) (filter (\<lambda>t. Q (c + t)) [0..<n]) = map int (filter Q [c..<c + n])"
proof -
  have "[c..<c + n] = map (\<lambda>t. t + c) [0..<n]"
    by (simp only: map_add_upt add.commute [of c n])
  then have "map int (filter Q [c..<c + n])
      = map int (map (\<lambda>t. t + c) (filter (Q \<circ> (\<lambda>t. t + c)) [0..<n]))"
    by (simp only: filter_map)
  also have "\<dots> = map (\<lambda>t. int (t + c)) (filter (\<lambda>t. Q (t + c)) [0..<n])"
    by (simp only: map_map comp_def)
  also have "\<dots> = map (\<lambda>t. int t + int c) (filter (\<lambda>t. Q (c + t)) [0..<n])"
    by (simp only: of_nat_add add.commute [of c])
  finally show ?thesis by (rule sym)
qed

lemma concat_consecutive:
  assumes "\<forall>k<n. g k \<le> g (Suc k)"
  shows "g 0 \<le> g n \<and> concat (map (\<lambda>k. [g k..<g (Suc k)]) [0..<n]) = [g 0..<g n]"
  using assms
proof (induction n)
  case 0
  then show ?case by simp
next
  case (Suc n)
  then have ih: "g 0 \<le> g n" "concat (map (\<lambda>k. [g k..<g (Suc k)]) [0..<n]) = [g 0..<g n]"
    by simp_all
  have step: "g n \<le> g (Suc n)" using Suc.prems by simp
  obtain b where b: "g (Suc n) = g n + b" using step le_Suc_ex by blast
  have "[g 0..<g n + b] = [g 0..<g n] @ [g n..<g n + b]"
    using ih(1) by (rule upt_add_eq_append)
  then have "[g 0..<g n] @ [g n..<g (Suc n)] = [g 0..<g (Suc n)]"
    unfolding b by (rule sym)
  moreover have "g 0 \<le> g (Suc n)" using ih(1) step by (rule order_trans)
  ultimately show ?case using ih(2) by simp
qed

lemma one_rank_needs_a_file:
  assumes "main e [] P 1 = Inr res"
  shows False
proof -
  from main_Inr [OF assms] have "0 \<le> root_distribute e [] P 1 ! 0" by auto
  moreover have "root_distribute e [] P 1 ! 0 = - 1"
    by (simp add: root_distribute_def distribute_file_def c_div_def c_mod_def to_int_def
        distribute_loop.simps Let_def)
  ultimately show False by simp
qed

lemma parallel_equals_sequential_when_shares_suffice:
  assumes "main e F P p = Inr res" and "main e F P 1 = Inr res1"
    and "1 \<le> p" and "1 \<le> length P" and "length P - 1 \<le> (length F - 1) div p"
    and "int (length F) + int (length P) < 2 ^ 31"
  shows "res = res1"
proof -
  define L where "L = length F - 1"
  define m where "m = length P"
  define E where "E = L - m + 1"
  have nosize: "\<not> size_check (int (length F)) (int (length P))"
    using assms(1) by (auto simp: main_def split: if_splits)
  have F: "F \<noteq> []"
    using one_rank_needs_a_file assms(2) by blast
  have p: "0 < p" using assms(3) by simp
  have mq: "m - 1 \<le> L div p" using assms(5) unfolding L_def m_def .
  have ml: "m \<le> L"
  proof -
    have "int (length F) - 1 = int L" unfolding L_def using F by (cases F) simp_all
    moreover have "\<not> (int (length F) - 1) mod 2 ^ 64 < int m"
      using nosize unfolding size_check_def m_def .
    moreover have "(int (length F) - 1) mod 2 ^ 64 \<le> int (length F) - 1"
      using F by (intro zmod_le_nonneg_dividend) (cases F, simp_all)
    ultimately show ?thesis by linarith
  qed
  have shape: "\<exists>sent. length sent = n \<and> r = concat sent \<and>
     (\<forall>k<n. sent ! k = map int (filter (occurs_at P F)
           [territory_start L n k..<territory_start L n k + scanned L m n k]))"
    if "main e F P n = Inr r" "1 \<le> n" for n r
    using run_result_shape [OF that F assms(4,6)] unfolding shifted_filter L_def m_def by simp
  have seq: "res1 = map int (filter (occurs_at P F) [0..<E])"
  proof -
    from shape [OF assms(2)] obtain sent where "length sent = 1" "res1 = concat sent"
      "sent ! 0 = map int (filter (occurs_at P F)
           [territory_start L 1 0..<territory_start L 1 0 + scanned L m 1 0])"
      by auto
    moreover have "territory_start L 1 0 = 0" by (simp add: territory_start_def)
    moreover have "scanned L m 1 0 = E"
      using ml unfolding scanned_def E_def by simp
    moreover have "concat sent = sent ! 0"
      using \<open>length sent = 1\<close> by (cases sent) simp_all
    ultimately show ?thesis by simp
  qed
  define g where "g k = (if k < p then territory_start L p k else E)" for k
  have last: "territory_start L p (p - 1) + scanned L m p (p - 1) = E"
  proof -
    have "L mod p < p" using p by simp
    then have "\<not> p - 1 < L mod p" by simp
    then have "scanned L m p (p - 1) = nat (int (L div p) - int m + 1)"
      by (simp add: scanned_def)
    also have "\<dots> = L div p + 1 - m" using mq by linarith
    finally have "scanned L m p (p - 1) = L div p + 1 - m" .
    moreover have "territory_start L p (p - 1) + L div p = L" using p by (rule territory_start_last)
    ultimately show ?thesis using mq ml unfolding E_def by linarith
  qed
  have inner: "territory_start L p k + scanned L m p k = territory_start L p (Suc k)"
    if "k < p - 1" for k
  proof -
    have "int (L div p) + (if k < L mod p then 1 else 0) + (if k < p - 1 then int m - 1 else 0) - int m + 1
          = int (L div p + (if k < L mod p then 1 else 0))"
      using that by simp
    then have "scanned L m p k = L div p + (if k < L mod p then 1 else 0)"
      unfolding scanned_def by (simp only: nat_int)
    then show ?thesis by (simp add: territory_start_Suc)
  qed
  have gS: "territory_start L p k + scanned L m p k = g (Suc k)" if "k < p" for k
  proof (cases "k < p - 1")
    case True
    then have "Suc k < p" by arith
    then show ?thesis using inner [OF True] by (simp add: g_def)
  next
    case False
    then have "k = p - 1" using that by simp
    then show ?thesis using last p by (simp add: g_def)
  qed
  have gk: "g k = territory_start L p k" if "k < p" for k using that by (simp add: g_def)
  have mono: "\<forall>k<p. g k \<le> g (Suc k)"
    using gS gk by (metis le_add1)
  from shape [OF assms(1,3)] obtain sent where len: "length sent = p" and r: "res = concat sent"
    and sk: "\<forall>k<p. sent ! k = map int (filter (occurs_at P F)
           [territory_start L p k..<territory_start L p k + scanned L m p k])"
    by blast
  have "sent = map (\<lambda>k. map int (filter (occurs_at P F) [g k..<g (Suc k)])) [0..<p]"
  proof (rule nth_equalityI)
    show "length sent = length (map (\<lambda>k. map int (filter (occurs_at P F) [g k..<g (Suc k)])) [0..<p])"
      using len by simp
  next
    fix k assume "k < length sent"
    then have k: "k < p" using len by simp
    then show "sent ! k = map (\<lambda>k. map int (filter (occurs_at P F) [g k..<g (Suc k)])) [0..<p] ! k"
      using sk gS [OF k] gk [OF k] by simp
  qed
  then have "res = concat (map (\<lambda>k. map int (filter (occurs_at P F) [g k..<g (Suc k)])) [0..<p])"
    using r by simp
  also have "\<dots> = map int (filter (occurs_at P F) (concat (map (\<lambda>k. [g k..<g (Suc k)]) [0..<p])))"
    by (simp add: map_concat filter_concat comp_def)
  also have "concat (map (\<lambda>k. [g k..<g (Suc k)]) [0..<p]) = [g 0..<g p]"
    using concat_consecutive [OF mono] by simp
  also have "g 0 = 0" using p by (simp add: g_def territory_start_def)
  also have "g p = E" by (simp add: g_def)
  finally show ?thesis using seq by simp
qed

text \<open>
  Claim C1 says that a run with more than one rank prints the sequence that the run with
  one rank prints. For the corpus \<open>abcdx\<close> and the pattern \<open>bcdx\<close>, the overlap given to
  rank 0 of 2 reaches the final byte, which the run with one rank never scans: two ranks
  print offset 1, one rank prints nothing.
\<close>

theorem parallel_differs_from_sequential:
  "1 \<le> length ''bcdx'' \<and> length ''bcdx'' \<le> length ''abcdx''
   \<and> main (plain_env 4) ''abcdx'' ''bcdx'' 2 = Inr [1]
   \<and> main (plain_env 4) ''abcdx'' ''bcdx'' 1 = Inr []"
  by code_simp

text \<open>
  That run with two ranks has rank 1 allocate \<open>pattern\<close> with the \<open>pattern_size\<close> it
  finds in memory. When that is the address-like value a stack often holds the request is
  refused and the run aborts; when it is 0 the broadcast of the four pattern bytes leaves
  the allocation. Neither run prints what the run with one rank prints.
\<close>

lemma uninitialised_pattern_size_decides:
  "main (plain_env (2 ^ 63)) ''abcdx'' ''bcdx'' 2 = Inl PatternAllocationError
   \<and> main (plain_env 140724603453440) ''abcdx'' ''bcdx'' 2 = Inl PatternAllocationError
   \<and> main (plain_env 0) ''abcdx'' ''bcdx'' 2 = Inl PatternOverflow
   \<and> main (plain_env 0) ''abcdx'' ''bcdx'' 1 = Inr []"
  by code_simp

text \<open>
  Each allocation that the platform refuses ends the run there: the file buffer of the
  root, the local buffer of a rank, the pattern buffer of a rank, and the receive buffer
  of the gather, which \<open>main\<close> uses without a test of the pointer.
\<close>

lemma refused_allocations:
  "main ((plain_env 2)\<lparr>malloc_fails := (\<lambda>n. n = 8)\<rparr>) ''abcdefgZ'' ''ab'' 2 = Inl FileAllocationError
   \<and> main ((plain_env 2)\<lparr>malloc_fails := (\<lambda>n. n = 3)\<rparr>) ''abcdefgZ'' ''ab'' 2 = Inl AllocationError
   \<and> main ((plain_env 2)\<lparr>malloc_fails := (\<lambda>n. n = 2)\<rparr>) ''abcdefgZ'' ''ab'' 2
       = Inl PatternAllocationError
   \<and> main ((plain_env 2)\<lparr>malloc_fails := (\<lambda>n. n = 4)\<rparr>) ''abcdefgZ'' ''ab'' 2 = Inl NullReceiveBuffer
   \<and> main (plain_env 2) ''abcdefgZ'' ''ab'' 2 = Inr [0]"
  by code_simp

text \<open>
  The broadcast of \<open>pattern_size\<close> delivers 4 of its 8 bytes: a rank that held
  \<open>2^32 + 9\<close> holds \<open>2^32 + 4\<close> afterwards, which \<open>find_string\<close> receives as the
  \<open>int\<close> 4. In the run with two ranks above, rank 1 has 2 bytes for a pattern of 4:
  the bound of its \<open>found\<close> is \<open>2^64 - 2\<close>, so that run is not among those with valid
  bounds.
\<close>

lemma broadcast_leaves_high_bytes:
  "pattern_size_after (plain_env (2 ^ 32 + 9)) ''bcdx'' 1 = 2 ^ 32 + 4
   \<and> pattern_size_after (plain_env (2 ^ 32 + 9)) ''bcdx'' 0 = 4
   \<and> to_int (2 ^ 32 + 4) = 4"
  by code_simp

lemma found_bound_of_short_share:
  "found_bound (plain_env 4) ''bcdx'' [5, 2] 0 = 1
   \<and> found_bound (plain_env 4) ''bcdx'' [5, 2] 1 = 18446744073709551614
   \<and> \<not> found_bounds_valid (plain_env 4) ''abcdx'' ''bcdx'' 2
   \<and> \<not> found_bounds_valid (plain_env 4) ''abcdx'' ''bcdx'' 1"
  by code_simp

text \<open>
  The offsets themselves are in order: none is negative and they do not decrease with the
  rank; by \<open>partition_end\<close> the range of the last rank ends at \<open>file_size - 1\<close>.
\<close>

lemma displs_nondecreasing:
  assumes "0 < p" and "i \<le> j" and "j < p" and "length d = p" and "length ds = p"
    and "1 \<le> ps" and "int L + ps < 2 ^ 31"
  shows "0 \<le> displacment ds (distribute_file (int L) ps p d) ps p ! i
       \<and> displacment ds (distribute_file (int L) ps p d) ps p ! i
         \<le> displacment ds (distribute_file (int L) ps p d) ps p ! j"
proof -
  have "displacment ds (distribute_file (int L) ps p d) ps p ! k
        = int (territory_start L p k)" if "k < p" for k
    using assms(1,4,5,6,7) that by (rule displacment_closed)
  moreover have "i < p" using assms(2,3) by simp
  ultimately show ?thesis using assms(3) territory_start_mono [OF assms(2), of L p] by simp
qed

text \<open>
  Claim C9 says that \<open>displs[i] + distribute[i] \<le> file_size - 1\<close> for every rank, so
  that the scatter stays inside the buffer and never hands out the final byte of the file.
  For a file of 6 bytes, a pattern of 5 and two ranks, rank 0 is given 7 bytes from offset
  0: more than \<open>file_size - 1\<close> and more than the buffer holds.
\<close>

theorem scatter_leaves_file_buffer:
  "distribute_file (6 - 1) 5 2 (replicate 2 0) = [7, 2]
   \<and> displacment (replicate 2 0) [7, 2] 5 2 = [0, 3]
   \<and> \<not> ((0::int) + 7 \<le> 6 - 1)
   \<and> main (plain_env 5) ''abcdeZ'' ''abcde'' 2 = Inl ScatterOutOfBounds"
  by code_simp

end
